theory Spec2Isabelle
  imports Main "HOL-Library.Word" "HOL-Library.Signed_Division"
begin

unbundle bit_operations_syntax

section \<open>The JOS kernel monitor (kern/monitor.c)\<close>

text \<open>
  The monitor runs on 32-bit x86. A \<^verbatim>\<open>uint32_t\<close> and the bit pattern of an
  \<^verbatim>\<open>int\<close> are both a \<^typ>\<open>32 word\<close>: addition wraps, \<^const>\<open>unat\<close> reads the
  unsigned value and \<^const>\<open>sint\<close> the two's complement one.

  A \<^verbatim>\<open>char*\<close> is the list of the bytes that memory holds from the address on;
  behind the list memory holds NUL bytes only, as the zero-initialised line buffer does
  behind what was written to it. So \<^verbatim>\<open>p + n\<close> is \<open>drop n p\<close>, \<^verbatim>\<open>*p == 0\<close> is
  \<open>at_nul p\<close>, and the C string at \<^verbatim>\<open>p\<close> is \<open>c_str p\<close>: the bytes in front of the first
  NUL. A string literal such as \<open>''help''\<close> is a pointer at these characters with NUL
  behind them.
\<close>

type_synonym uint32_t = "32 word"

definition NUL :: char where
  "NUL = CHR 0x00"

definition c_str :: "string \<Rightarrow> string" where
  "c_str p = takeWhile (\<lambda>c. c \<noteq> NUL) p"

definition at_nul :: "string \<Rightarrow> bool" where
  "at_nul p = (case p of [] \<Rightarrow> True | c # cs \<Rightarrow> c = NUL)"

subsection \<open>Console output\<close>

text \<open>
  \<^verbatim>\<open>cprintf\<close> lives in the console library. A call is recorded with its format
  string and the values of its arguments, in the order of the calls.
\<close>

datatype arg = U32 uint32_t | I32 int | Str string | Ptr uint32_t

datatype event =
    Cprintf string "arg list"
  | Print_trapframe uint32_t
  | Readline string

subsection \<open>Undefined behaviour\<close>

text \<open>
  Where C leaves the behaviour of the code open, the model returns an error instead of
  a value: a shift by the width of \<^verbatim>\<open>int\<close> or more, a read of \<^verbatim>\<open>argv\<close> behind
  its last entry.
\<close>

datatype error = ShiftCountTooWide | ArgvOutOfRange

subsection \<open>Address parser\<close>

text \<open>
  \<^verbatim>\<open>int char2int(char c)\<close>. The character is compared through its code. On x86
  \<^verbatim>\<open>char\<close> is signed, so the bytes from 128 on are negative in C and fail every
  comparison; as codes 128 to 255 they fail every comparison here as well. The result
  is between 0 and 15, so the \<^verbatim>\<open>int\<close> is a mathematical integer.
\<close>

definition char2int :: "char \<Rightarrow> int" where
  "char2int c =
     (if 48 \<le> (of_char c :: int) \<and> (of_char c :: int) \<le> 57 then of_char c - 48
      else if of_char (CHR ''A'') \<le> (of_char c :: int) \<and> (of_char c :: int) \<le> of_char (CHR ''F'')
        then of_char c - 55
      else if of_char (CHR ''a'') \<le> (of_char c :: int) \<and> (of_char c :: int) \<le> of_char (CHR ''f'')
        then of_char c - 87
      else 0)"

text \<open>
  The loop of \<^verbatim>\<open>hexaddr2decaddr\<close> over \<^verbatim>\<open>newaddr\<close>. At index \<^verbatim>\<open>i\<close> the
  characters after \<^verbatim>\<open>newaddr[i]\<close> are \<^verbatim>\<open>len - i - 1\<close> many, which is the length
  of the rest of the list. \<^verbatim>\<open>tempret << n\<close> is a shift of a 32-bit \<^verbatim>\<open>int\<close>:
  undefined for \<^verbatim>\<open>n\<close> from 32 on; below 32 the bits shifted into and beyond the sign
  bit wrap as gcc compiles it, and so does \<^verbatim>\<open>result += tempret\<close>.
\<close>

fun hex_loop :: "string \<Rightarrow> 32 word \<Rightarrow> error + 32 word" where
  "hex_loop [] result = Inr result"
| "hex_loop (c # cs) result =
     (if 32 \<le> length cs * 4 then Inl ShiftCountTooWide
      else hex_loop cs (result + push_bit (length cs * 4) (word_of_int (char2int c))))"

text \<open>
  \<^verbatim>\<open>int hexaddr2decaddr(char *hexaddr)\<close>. \<^verbatim>\<open>hexaddr + 2\<close> skips two bytes
  without looking at them, be they the terminator of a string shorter than that;
  \<^verbatim>\<open>strlen(newaddr)\<close> counts from there to the next NUL, and the loop reads these
  characters.
\<close>

definition hexaddr2decaddr :: "string \<Rightarrow> error + 32 word" where
  "hexaddr2decaddr hexaddr =
     (let newaddr = drop 2 hexaddr
      in hex_loop (c_str newaddr) 0)"

subsection \<open>Reference: hexadecimal literals\<close>

text \<open>
  The formatting that the round trip of the address parser is stated against: the
  digits of a number in base 16, most significant first and at least one, in lowercase
  or in uppercase, filled with zeros on the left up to a width (as \<^verbatim>\<open>%x\<close> does for
  width 0 and \<^verbatim>\<open>%08x\<close> for width 8), behind a prefix. A digit is below 16 wherever
  \<open>hex_digit\<close> is used.
\<close>

definition hex_digit :: "bool \<Rightarrow> nat \<Rightarrow> char" where
  "hex_digit upper d = (if upper then ''0123456789ABCDEF'' else ''0123456789abcdef'') ! d"

fun hex_digits :: "bool \<Rightarrow> nat \<Rightarrow> string" where
  "hex_digits upper n =
     (if n < 16 then [hex_digit upper n]
      else hex_digits upper (n div 16) @ [hex_digit upper (n mod 16)])"

definition format_hex :: "string \<Rightarrow> bool \<Rightarrow> nat \<Rightarrow> nat \<Rightarrow> string" where
  "format_hex prefix upper width n =
     prefix @ replicate (width - length (hex_digits upper n)) (CHR ''0'') @ hex_digits upper n"

text \<open>A character is a hexadecimal digit.\<close>

definition is_hex :: "char \<Rightarrow> bool" where
  "is_hex c = (c \<in> set ''0123456789ABCDEFabcdef'')"

text \<open>The string with every character that is no hexadecimal digit replaced by \<^verbatim>\<open>'0'\<close>.\<close>

definition zero_non_hex :: "string \<Rightarrow> string" where
  "zero_non_hex s = map (\<lambda>c. if is_hex c then c else CHR ''0'') s"

declare hex_digits.simps [simp del]

text \<open>The value of a string of digits, most significant first, each digit read by
  \<^const>\<open>char2int\<close>.\<close>

fun digits_value :: "string \<Rightarrow> nat" where
  "digits_value [] = 0"
| "digits_value (c # cs) = nat (char2int c) * 16 ^ length cs + digits_value cs"

subsection \<open>Execution context\<close>

text \<open>
  \<^verbatim>\<open>struct Eipdebuginfo\<close> of kern/kdebug.h, with the fields that the monitor reads.
\<close>

record Eipdebuginfo =
  eip_file :: string
  eip_line :: int
  eip_fn_name :: string
  eip_fn_namelen :: int
  eip_fn_addr :: uint32_t

text \<open>
  What the monitor takes from the rest of the kernel, none of it under kern/monitor.c:
  the frame pointer register (\<^verbatim>\<open>read_ebp\<close>), the 32-bit word that memory holds at
  an address, the debug information of an instruction address (\<^verbatim>\<open>debuginfo_eip\<close>,
  which fills the structure for every address), the page table lookup
  (\<^verbatim>\<open>page_lookup(kern_pgdir, va, &pte)\<close>, the entry \<^verbatim>\<open>*pte\<close> when a page is
  found), the addresses of the linker symbols, and the macros \<^verbatim>\<open>KERNBASE\<close> and
  \<^verbatim>\<open>ROUNDUP\<close>. Memory does not change while a command runs, and every address can
  be read: a fault of the processor is no part of this file.
\<close>

record env =
  read_ebp :: uint32_t
  mem_word :: "uint32_t \<Rightarrow> uint32_t"
  debuginfo_eip :: "uint32_t \<Rightarrow> Eipdebuginfo"
  page_lookup :: "uint32_t \<Rightarrow> uint32_t option"
  sym_start :: uint32_t
  sym_entry :: uint32_t
  sym_etext :: uint32_t
  sym_edata :: uint32_t
  sym_end :: uint32_t
  KERNBASE :: uint32_t
  ROUNDUP :: "int \<Rightarrow> int \<Rightarrow> int"

text \<open>
  Modelled from the spec: \<^verbatim>\<open>PGSIZE\<close> of inc/mmu.h, the page size that the range
  sweep advances by, 4096 bytes on x86.
\<close>

definition PGSIZE :: uint32_t where
  "PGSIZE = 4096"

text \<open>
  Modelled from the spec: \<^verbatim>\<open>PTE_ADDR\<close> of inc/mmu.h, the page table entry masked to
  its frame address bits; the permission and flag bits are the twelve bits below the
  page size.
\<close>

definition PTE_ADDR :: "uint32_t \<Rightarrow> uint32_t" where
  "PTE_ADDR pte = pte AND NOT 0xFFF"

text \<open>
  A command returns its console output and its \<^verbatim>\<open>int\<close>, or an error where its
  behaviour is undefined, or \<^const>\<open>None\<close> when it never returns.
\<close>

type_synonym result = "(error + event list \<times> int) option"

definition returns :: "event list \<Rightarrow> int \<Rightarrow> result" where
  "returns out r = Some (Inr (out, r))"

definition bind_err :: "error + 'a \<Rightarrow> ('a \<Rightarrow> result) \<Rightarrow> result" where
  "bind_err x f = (case x of Inl err \<Rightarrow> Some (Inl err) | Inr v \<Rightarrow> f v)"

text \<open>\<^verbatim>\<open>argv[i]\<close>.\<close>

definition argv_at :: "string list \<Rightarrow> nat \<Rightarrow> error + string" where
  "argv_at argv i = (if i < length argv then Inr (argv ! i) else Inl ArgvOutOfRange)"

subsection \<open>The command table\<close>

text \<open>The function pointers of the table are the four handlers.\<close>

datatype handler = Mon_help | Mon_kerninfo | Mon_backtrace | Mon_showmappings

record Command =
  name :: string
  desc :: string
  func :: handler

definition commands :: "Command list" where
  "commands =
    [\<lparr>name = ''help'', desc = ''Display this list of commands'', func = Mon_help\<rparr>,
     \<lparr>name = ''kerninfo'', desc = ''Display information about the kernel'',
      func = Mon_kerninfo\<rparr>,
     \<lparr>name = ''backtrace'', desc = ''Display information of the kernel stack'',
      func = Mon_backtrace\<rparr>,
     \<lparr>name = ''showmappings'',
      desc = ''Show physical address mappings corresponding to specific virtual addresses'',
      func = Mon_showmappings\<rparr>]"

subsection \<open>help and kerninfo\<close>

definition mon_help :: "env \<Rightarrow> int \<Rightarrow> string list \<Rightarrow> uint32_t \<Rightarrow> result" where
  "mon_help e argc argv tf =
     returns (map (\<lambda>c. Cprintf ''%s - %s\<newline>'' [Str (name c), Str (desc c)]) commands) 0"

text \<open>
  \<^verbatim>\<open>end - entry\<close> is a difference of pointers, an \<^verbatim>\<open>int\<close>, and the division by
  1024 truncates.
\<close>

definition mon_kerninfo :: "env \<Rightarrow> int \<Rightarrow> string list \<Rightarrow> uint32_t \<Rightarrow> result" where
  "mon_kerninfo e argc argv tf =
     returns
       [Cprintf ''Special kernel symbols:\<newline>'' [],
        Cprintf ''  _start                  %08x (phys)\<newline>'' [Ptr (sym_start e)],
        Cprintf ''  entry  %08x (virt)  %08x (phys)\<newline>''
          [Ptr (sym_entry e), Ptr (sym_entry e - KERNBASE e)],
        Cprintf ''  etext  %08x (virt)  %08x (phys)\<newline>''
          [Ptr (sym_etext e), Ptr (sym_etext e - KERNBASE e)],
        Cprintf ''  edata  %08x (virt)  %08x (phys)\<newline>''
          [Ptr (sym_edata e), Ptr (sym_edata e - KERNBASE e)],
        Cprintf ''  end    %08x (virt)  %08x (phys)\<newline>''
          [Ptr (sym_end e), Ptr (sym_end e - KERNBASE e)],
        Cprintf ''Kernel executable memory footprint: %dKB\<newline>''
          [I32 (ROUNDUP e (sint (sym_end e - sym_entry e)) 1024 sdiv 1024)]]
       0"

subsection \<open>backtrace\<close>

text \<open>
  One pass of the loop of \<^verbatim>\<open>mon_backtrace\<close> at frame pointer \<^verbatim>\<open>val_ebp\<close>.
  \<^verbatim>\<open>ptr\<close> is a \<^verbatim>\<open>uint32_t*\<close>, so \<^verbatim>\<open>++ptr\<close> adds four bytes: the return
  address is read at \<^verbatim>\<open>val_ebp + 4\<close>, and the five argument words behind it.
\<close>

definition backtrace_frame :: "env \<Rightarrow> uint32_t \<Rightarrow> event list" where
  "backtrace_frame e val_ebp =
     (let ptr = val_ebp + 4;
          eip = mem_word e ptr;
          info = debuginfo_eip e (mem_word e ptr)
      in [Cprintf ''ebp %x eip %x args '' [U32 val_ebp, U32 eip]] @
         map (\<lambda>i. Cprintf ''%08x '' [U32 (mem_word e (ptr + 4 * of_nat i))]) [1..<6] @
         [Cprintf ''\<newline>'' [],
          Cprintf ''%s:%d: %.*s+%u\<newline>''
            [Str (eip_file info), I32 (eip_line info), I32 (eip_fn_namelen info),
             Str (eip_fn_name info), U32 (eip - eip_fn_addr info)]])"

text \<open>
  \<^verbatim>\<open>while (val_ebp != 0)\<close>: the state of the loop is the frame pointer and the
  console output so far. The result is \<^const>\<open>None\<close> when the loop never ends.
\<close>

partial_function (option) backtrace_loop ::
  "env \<Rightarrow> uint32_t \<Rightarrow> event list \<Rightarrow> event list option" where
  "backtrace_loop e val_ebp out =
     (if val_ebp \<noteq> 0
      then backtrace_loop e (mem_word e val_ebp) (out @ backtrace_frame e val_ebp)
      else Some out)"

definition mon_backtrace :: "env \<Rightarrow> int \<Rightarrow> string list \<Rightarrow> uint32_t \<Rightarrow> result" where
  "mon_backtrace e argc argv tf =
     (case backtrace_loop e (read_ebp e) [Cprintf ''Stack backtrace:\<newline>'' []] of
        None \<Rightarrow> None
      | Some out \<Rightarrow> returns out 0)"

subsection \<open>showmappings\<close>

definition showmappings :: "env \<Rightarrow> uint32_t \<Rightarrow> event list \<times> int" where
  "showmappings e vaddr =
     (case page_lookup e vaddr of
        Some pte_entry \<Rightarrow>
          ([Cprintf ''va: %08p    '' [Ptr vaddr],
            Cprintf ''pa: %08p\<newline>'' [Ptr (PTE_ADDR pte_entry)]], 0)
      | None \<Rightarrow> ([Cprintf ''No physical page mapping at %08p\<newline>'' [Ptr vaddr]], 0))"

text \<open>
  \<^verbatim>\<open>while (low <= high)\<close> on \<^verbatim>\<open>uint32_t\<close>: the comparison is unsigned and
  \<^verbatim>\<open>low += PGSIZE\<close> wraps at \<open>2 ^ 32\<close>.
\<close>

partial_function (option) showmappings_loop ::
  "env \<Rightarrow> uint32_t \<Rightarrow> uint32_t \<Rightarrow> event list \<Rightarrow> event list option" where
  "showmappings_loop e low high out =
     (if low \<le> high
      then showmappings_loop e (low + PGSIZE) high (out @ fst (showmappings e low))
      else Some out)"

text \<open>
  The \<^verbatim>\<open>int\<close> of \<^verbatim>\<open>hexaddr2decaddr\<close> becomes a \<^verbatim>\<open>uint32_t\<close> with the same bits,
  both as the argument of \<^verbatim>\<open>showmappings\<close> and in \<^verbatim>\<open>low\<close> and \<^verbatim>\<open>high\<close>.
\<close>

definition mon_showmappings :: "env \<Rightarrow> int \<Rightarrow> string list \<Rightarrow> uint32_t \<Rightarrow> result" where
  "mon_showmappings e argc argv tf =
     (if argc = 2 then
        bind_err (argv_at argv 1) (\<lambda>hexaddr.
        bind_err (hexaddr2decaddr hexaddr) (\<lambda>vaddr.
          returns (fst (showmappings e vaddr)) 0))
      else if argc = 3 then
        bind_err (argv_at argv 1) (\<lambda>lower_addr.
        bind_err (argv_at argv 2) (\<lambda>upper_addr.
        bind_err (hexaddr2decaddr lower_addr) (\<lambda>low.
        bind_err (hexaddr2decaddr upper_addr) (\<lambda>high.
          case showmappings_loop e low high [] of
            None \<Rightarrow> None
          | Some out \<Rightarrow> returns out 0))))
      else returns [] 0)"

subsection \<open>Command interpreter\<close>

definition WHITESPACE :: string where
  "WHITESPACE = [CHR 0x09, CHR 0x0D, CHR 0x0A, CHR '' '']"

definition MAXARGS :: nat where
  "MAXARGS = 16"

text \<open>
  The tokenizer of \<^verbatim>\<open>runcmd\<close> works on the line buffer in place. Its state is the
  buffer in two parts: \<open>front\<close>, the bytes in front of \<^verbatim>\<open>buf\<close> as they are now, and the
  memory from \<^verbatim>\<open>buf\<close> on.

  \<^verbatim>\<open>while ( *buf && strchr(WHITESPACE, *buf)) *buf++ = 0;\<close>
\<close>

fun gobble_whitespace :: "string \<Rightarrow> string \<Rightarrow> string \<times> string" where
  "gobble_whitespace front [] = (front, [])"
| "gobble_whitespace front (c # cs) =
     (if c \<noteq> NUL \<and> c \<in> set WHITESPACE then gobble_whitespace (front @ [NUL]) cs
      else (front, c # cs))"

text \<open>\<^verbatim>\<open>while ( *buf && !strchr(WHITESPACE, *buf)) buf++;\<close>\<close>

fun scan_arg :: "string \<Rightarrow> string \<Rightarrow> string \<times> string" where
  "scan_arg front [] = (front, [])"
| "scan_arg front (c # cs) =
     (if c \<noteq> NUL \<and> c \<notin> set WHITESPACE then scan_arg (front @ [c]) cs
      else (front, c # cs))"

text \<open>
  The \<^verbatim>\<open>while (1)\<close> of \<^verbatim>\<open>runcmd\<close>, with \<^verbatim>\<open>argc\<close> the length of
  \<^verbatim>\<open>argv\<close>. An entry of \<^verbatim>\<open>argv\<close> is a pointer into the buffer, kept here as
  its offset from the start of the buffer. The result is the buffer as the loop leaves
  it and the offsets; \<^const>\<open>None\<close> is the early return behind the report of too many
  arguments.
\<close>

function parse_args :: "string \<Rightarrow> string \<Rightarrow> nat list \<Rightarrow> (string \<times> nat list) option" where
  "parse_args front buf argv =
     (case gobble_whitespace front buf of
        (front1, buf1) \<Rightarrow>
          if at_nul buf1 then Some (front1 @ buf1, argv)
          else if length argv = MAXARGS - 1 then None
          else (case scan_arg front1 buf1 of
                  (front2, buf2) \<Rightarrow> parse_args front2 buf2 (argv @ [length front1])))"
  by pat_completeness auto
termination
proof (relation "measure (\<lambda>(front, buf, argv). length buf)")
  show "wf (measure (\<lambda>(front, buf, argv). length buf))" by simp
next
  fix front buf :: string and argv :: "nat list" and front1 buf1 front2 buf2
  assume g: "(front1, buf1) = gobble_whitespace front buf"
    and n: "\<not> at_nul buf1" and "length argv \<noteq> MAXARGS - 1"
    and s: "(front2, buf2) = scan_arg front1 buf1"
  have gl: "length (snd (gobble_whitespace b p)) \<le> length p" for b p
    by (induction p arbitrary: b) (auto intro: le_SucI)
  have gh: "\<not> at_nul (snd (gobble_whitespace b p)) \<Longrightarrow>
            hd (snd (gobble_whitespace b p)) \<noteq> NUL \<and>
            hd (snd (gobble_whitespace b p)) \<notin> set WHITESPACE" for b p
    by (induction p arbitrary: b) (auto simp: at_nul_def)
  have sl: "length (snd (scan_arg b p)) \<le> length p" for b p
    by (induction p arbitrary: b) (auto intro: le_SucI)
  from g have b1: "buf1 = snd (gobble_whitespace front buf)" by (metis snd_conv)
  obtain c cs where c: "buf1 = c # cs" using n by (cases buf1) (auto simp: at_nul_def)
  from b1 c have e: "snd (gobble_whitespace front buf) = c # cs" by simp
  from n b1 have "\<not> at_nul (snd (gobble_whitespace front buf))" by simp
  from gh[OF this] have "c \<noteq> NUL \<and> c \<notin> set WHITESPACE" unfolding e by simp
  with s c have "buf2 = snd (scan_arg (front1 @ [c]) cs)" by (metis scan_arg.simps(2) snd_conv)
  with sl[of "front1 @ [c]" cs] c have "length buf2 < length buf1" by simp
  with gl[of front buf] b1
  show "((front2, buf2, argv @ [length front1]), (front, buf, argv))
          \<in> measure (\<lambda>(front, buf, argv). length buf)"
    by simp
qed

declare parse_args.simps [simp del]

text \<open>
  The \<^verbatim>\<open>for\<close> loop over the table with \<^verbatim>\<open>strcmp\<close>: the first entry whose name is
  the string at \<^verbatim>\<open>argv[0]\<close>.
\<close>

fun lookup_command :: "Command list \<Rightarrow> string \<Rightarrow> handler option" where
  "lookup_command [] arg0 = None"
| "lookup_command (c # cs) arg0 =
     (if c_str arg0 = name c then Some (func c) else lookup_command cs arg0)"

text \<open>
  \<^verbatim>\<open>runcmd\<close>, with the call through the function pointer as a parameter. \<^verbatim>\<open>buf\<close>
  is the memory from the start of the line on: the line, its terminator and what the
  buffer holds behind it. A handler gets the pointers of \<^verbatim>\<open>argv\<close>, each the buffer
  from its offset on.
\<close>

definition runcmd_with ::
  "(handler \<Rightarrow> int \<Rightarrow> string list \<Rightarrow> uint32_t \<Rightarrow> result) \<Rightarrow> string \<Rightarrow> uint32_t \<Rightarrow> result" where
  "runcmd_with call buf tf =
     (case parse_args [] buf [] of
        None \<Rightarrow> returns [Cprintf ''Too many arguments (max %d)\<newline>'' [I32 (int MAXARGS)]] 0
      | Some (mem, offsets) \<Rightarrow>
          (let argv = map (\<lambda>i. drop i mem) offsets
           in if length argv = 0 then returns [] 0
              else (case lookup_command commands (argv ! 0) of
                      Some f \<Rightarrow> call f (int (length argv)) argv tf
                    | None \<Rightarrow>
                        returns [Cprintf ''Unknown command '%s'\<newline>'' [Str (c_str (argv ! 0))]] 0)))"

definition call_handler :: "env \<Rightarrow> handler \<Rightarrow> int \<Rightarrow> string list \<Rightarrow> uint32_t \<Rightarrow> result" where
  "call_handler e f =
     (case f of
        Mon_help \<Rightarrow> mon_help e
      | Mon_kerninfo \<Rightarrow> mon_kerninfo e
      | Mon_backtrace \<Rightarrow> mon_backtrace e
      | Mon_showmappings \<Rightarrow> mon_showmappings e)"

definition runcmd :: "env \<Rightarrow> string \<Rightarrow> uint32_t \<Rightarrow> result" where
  "runcmd e buf tf = runcmd_with (call_handler e) buf tf"

subsection \<open>The read-eval-print loop\<close>






subsection \<open>Reference: splitting a line at whitespace\<close>

text \<open>
  The fields of a line between the characters of \<^const>\<open>WHITESPACE\<close>, empty ones
  included, and the tokens of the line: its fields that are not empty. The line of a
  buffer \<open>buf\<close> is \<open>c_str buf\<close>.
\<close>

fun split_fields :: "string \<Rightarrow> string list" where
  "split_fields [] = [[]]"
| "split_fields (c # cs) =
     (if c \<in> set WHITESPACE then [] # split_fields cs
      else (case split_fields cs of [] \<Rightarrow> [[c]] | f # fs \<Rightarrow> (c # f) # fs))"

definition tokens :: "string \<Rightarrow> string list" where
  "tokens line = filter (\<lambda>t. t \<noteq> []) (split_fields line)"

text \<open>
  The strings of the arguments that the tokenizer yields for a buffer, \<^const>\<open>None\<close>
  when it gives up.
\<close>

definition argv_strings :: "string \<Rightarrow> string list option" where
  "argv_strings buf =
     (case parse_args [] buf [] of
        None \<Rightarrow> None
      | Some (mem, offsets) \<Rightarrow> Some (map (\<lambda>i. c_str (drop i mem)) offsets))"

text \<open>A buffer with every whitespace character of its line overwritten with NUL.\<close>

definition blank :: "string \<Rightarrow> string" where
  "blank buf =
     map (\<lambda>c. if c \<in> set WHITESPACE then NUL else c) (c_str buf) @
     drop (length (c_str buf)) buf"

subsection \<open>Reading the console output\<close>

text \<open>The frame pointer and the return address of every frame line of a backtrace.\<close>

fun frame_record :: "event \<Rightarrow> (uint32_t \<times> uint32_t) list" where
  "frame_record (Cprintf fmt [U32 fp, U32 eip]) =
     (if fmt = ''ebp %x eip %x args '' then [(fp, eip)] else [])"
| "frame_record ev = []"

definition frame_records :: "event list \<Rightarrow> (uint32_t \<times> uint32_t) list" where
  "frame_records out = concat (map frame_record out)"

text \<open>The offset that every symbol line of a backtrace reports.\<close>

fun symbol_offset :: "event \<Rightarrow> uint32_t list" where
  "symbol_offset (Cprintf fmt [Str file, I32 line, I32 namelen, Str fn, U32 off]) =
     (if fmt = ''%s:%d: %.*s+%u\<newline>'' then [off] else [])"
| "symbol_offset ev = []"

definition symbol_offsets :: "event list \<Rightarrow> uint32_t list" where
  "symbol_offsets out = concat (map symbol_offset out)"

text \<open>The virtual address of every translation that \<^const>\<open>showmappings\<close> reports.\<close>

fun translation :: "event \<Rightarrow> uint32_t list" where
  "translation (Cprintf fmt [Ptr vaddr]) =
     (if fmt = ''va: %08p    '' \<or> fmt = ''No physical page mapping at %08p\<newline>''
      then [vaddr] else [])"
| "translation ev = []"

definition translated :: "event list \<Rightarrow> uint32_t list" where
  "translated out = concat (map translation out)"

subsection \<open>Frame pointer chains\<close>

text \<open>
  The frames \<open>fps\<close>, innermost first, are linked from \<open>fp\<close> on through the saved frame
  pointers and end in a saved frame pointer of zero.
\<close>

fun frame_chain :: "env \<Rightarrow> uint32_t \<Rightarrow> uint32_t list \<Rightarrow> bool" where
  "frame_chain e fp [] = (fp = 0)"
| "frame_chain e fp (f # fps) = (fp = f \<and> f \<noteq> 0 \<and> frame_chain e (mem_word e f) fps)"

text \<open>The frame pointer behind \<open>n\<close> links of the chain.\<close>

definition link :: "env \<Rightarrow> nat \<Rightarrow> uint32_t \<Rightarrow> uint32_t" where
  "link e n fp = (mem_word e ^^ n) fp"

subsection \<open>Example contexts\<close>

text \<open>
  A kernel stack of two frames: \<^verbatim>\<open>ebp\<close> is \<^verbatim>\<open>0xf010ff18\<close>, the frame there
  saves the frame pointer \<^verbatim>\<open>0xf010ff38\<close>, and the frame there saves zero. One page is
  mapped, at \<^verbatim>\<open>0xf0100000\<close>.
\<close>

definition example_debuginfo :: "uint32_t \<Rightarrow> Eipdebuginfo" where
  "example_debuginfo addr =
     \<lparr>eip_file = ''kern/init.c'', eip_line = 24, eip_fn_name = ''test_backtrace'',
      eip_fn_namelen = 14, eip_fn_addr = 0xf0100040\<rparr>"

definition example_env :: env where
  "example_env =
     \<lparr>read_ebp = 0xf010ff18,
      mem_word = (\<lambda>a. 0)(0xf010ff18 := 0xf010ff38, 0xf010ff1c := 0xf0100068,
                          0xf010ff38 := 0, 0xf010ff3c := 0xf01000d4),
      debuginfo_eip = example_debuginfo,
      page_lookup = (\<lambda>va. if va = 0xf0100000 then Some 0x00100063 else None),
      sym_start = 0x0010000c, sym_entry = 0xf010000c, sym_etext = 0xf0101a75,
      sym_edata = 0xf0112300, sym_end = 0xf0112960,
      KERNBASE = 0xf0000000,
      ROUNDUP = (\<lambda>a n. (a + n - 1) div n * n)\<rparr>"

text \<open>The same context with a stack whose frame saves its own frame pointer.\<close>

definition cyclic_env :: env where
  "cyclic_env = example_env\<lparr>mem_word := (\<lambda>a. a)\<rparr>"

section \<open>Properties of C strings\<close>

lemma NUL_not_whitespace: "NUL \<notin> set WHITESPACE"
  by (simp add: WHITESPACE_def NUL_def)

lemma whitespace_not_NUL: "c \<in> set WHITESPACE \<Longrightarrow> c \<noteq> NUL"
  using NUL_not_whitespace by blast

lemma c_str_Nil: "c_str [] = []"
  by (simp add: c_str_def)

lemma c_str_NUL: "c_str (NUL # p) = []"
  by (simp add: c_str_def)

lemma c_str_Cons: "c \<noteq> NUL \<Longrightarrow> c_str (c # p) = c # c_str p"
  by (simp add: c_str_def)

lemma c_str_append: "NUL \<notin> set a \<Longrightarrow> c_str (a @ p) = a @ c_str p"
  by (induction a) (auto simp: c_str_def)

lemma c_str_cut: "NUL \<in> set a \<Longrightarrow> c_str (a @ p) = c_str a"
  by (induction a) (auto simp: c_str_def)

lemma c_str_plain: "NUL \<notin> set a \<Longrightarrow> c_str a = a"
  using c_str_append[of a "[]"] by (simp add: c_str_Nil)

lemma c_str_no_NUL: "NUL \<notin> set (c_str p)"
  unfolding c_str_def by (induction p) auto

lemma c_str_c_str: "c_str (c_str p) = c_str p"
  using c_str_no_NUL by (rule c_str_plain)

lemma at_nul_c_str: "at_nul p = (c_str p = [])"
  by (cases p) (auto simp: at_nul_def c_str_def)

lemma c_str_drop: "n \<le> length (c_str p) \<Longrightarrow> c_str (drop n p) = drop n (c_str p)"
proof (induction p arbitrary: n)
  case Nil
  then show ?case by (simp add: c_str_Nil)
next
  case (Cons c p)
  show ?case
  proof (cases n)
    case 0
    then show ?thesis by simp
  next
    case (Suc m)
    with Cons.prems have "c \<noteq> NUL" by (auto simp: c_str_def split: if_splits)
    with Cons Suc show ?thesis by (simp add: c_str_Cons)
  qed
qed

section \<open>Properties of the address parser: digits\<close>

lemma char_eq_code: "(c = d) = ((of_char c :: int) = of_char d)"
  by (simp add: of_char_eq_iff)

lemma is_hex_code:
  "is_hex c = ((48 \<le> (of_char c :: int) \<and> (of_char c :: int) \<le> 57) \<or>
               (65 \<le> (of_char c :: int) \<and> (of_char c :: int) \<le> 70) \<or>
               (97 \<le> (of_char c :: int) \<and> (of_char c :: int) \<le> 102))"
proof -
  have "is_hex c = ((of_char c :: int) \<in> {48,49,50,51,52,53,54,55,56,57,65,66,67,68,69,70,97,98,99,100,101,102})"
    unfolding is_hex_def by (simp add: char_eq_code[of c] disj_ac)
  also have "\<dots> = ((48 \<le> (of_char c :: int) \<and> (of_char c :: int) \<le> 57) \<or>
               (65 \<le> (of_char c :: int) \<and> (of_char c :: int) \<le> 70) \<or>
               (97 \<le> (of_char c :: int) \<and> (of_char c :: int) \<le> 102))"
    by (simp only: insert_iff empty_iff) arith
  finally show ?thesis .
qed

lemma non_hex_zero: "\<not> is_hex c \<Longrightarrow> char2int c = 0"
  unfolding is_hex_code char2int_def by auto

lemma char2int_zero_non_hex: "char2int (if is_hex c then c else CHR ''0'') = char2int c"
proof (cases "is_hex c")
  case True
  then show ?thesis by simp
next
  case False
  then have "char2int c = 0" by (rule non_hex_zero)
  moreover have "char2int (CHR ''0'') = 0" by (simp add: char2int_def)
  ultimately show ?thesis using False by simp
qed

lemma hex_loop_zero_non_hex: "hex_loop (zero_non_hex cs) r = hex_loop cs r"
  by (induction cs arbitrary: r) (simp_all add: zero_non_hex_def char2int_zero_non_hex)

lemma is_hex_not_NUL: "is_hex c \<Longrightarrow> c \<noteq> NUL"
  by (auto simp: is_hex_def NUL_def)

lemma zero_non_hex_no_NUL: "NUL \<notin> set (zero_non_hex s)"
proof -
  have "CHR ''0'' \<noteq> NUL" by (simp add: NUL_def)
  then show ?thesis by (auto simp: zero_non_hex_def dest: is_hex_not_NUL)
qed

lemma hexaddr2decaddr_zero_non_hex:
  "hexaddr2decaddr (take 2 s @ zero_non_hex (c_str (drop 2 s))) = hexaddr2decaddr s"
proof (cases "length s < 2")
  case True
  then show ?thesis by (simp add: c_str_Nil zero_non_hex_def)
next
  case False
  then have "drop 2 (take 2 s @ zero_non_hex (c_str (drop 2 s))) = zero_non_hex (c_str (drop 2 s))"
    by simp
  then show ?thesis
    by (simp add: hexaddr2decaddr_def hex_loop_zero_non_hex c_str_plain[OF zero_non_hex_no_NUL])
qed

section \<open>Properties of the address parser: round trip\<close>

lemma char2int_range: "0 \<le> char2int c \<and> char2int c \<le> 15"
  by (simp add: char2int_def)

lemma char2int_hex_digit: "d < 16 \<Longrightarrow> char2int (hex_digit upper d) = int d"
proof -
  assume "d < 16"
  then have "d \<in> {0,1,2,3,4,5,6,7,8,9,10,11,12,13,14,15}" by (simp only: insert_iff empty_iff) arith
  then show ?thesis by (auto simp: char2int_def hex_digit_def)
qed

lemma hex_loop_value:
  "length cs \<le> 8 \<Longrightarrow> hex_loop cs r = Inr (r + of_nat (digits_value cs))"
proof (induction cs arbitrary: r)
  case Nil
  then show ?case by simp
next
  case (Cons c cs)
  have nn: "0 \<le> char2int c" using char2int_range by blast
  have w: "(word_of_int (char2int c) :: 32 word) = of_nat (nat (char2int c))"
    using nn by simp
  have "(16::32 word) ^ length cs = (2 ^ 4) ^ length cs" by simp
  also have "\<dots> = 2 ^ (4 * length cs)" by (simp only: power_mult)
  finally have p: "(16::32 word) ^ length cs = 2 ^ (length cs * 4)"
    by (simp only: mult.commute)
  from Cons.prems have "length cs * 4 < 32" by simp
  moreover from Cons.prems have "length cs \<le> 8" by simp
  ultimately show ?case
    using Cons.IH[of "r + push_bit (length cs * 4) (word_of_int (char2int c))"]
    by (simp add: w push_bit_eq_mult p add.assoc)
qed

text \<open>
  C6: \<^const>\<open>char2int\<close> maps the digits \<^verbatim>\<open>0\<close> to \<^verbatim>\<open>9\<close> to 0 to 9, the letters
  \<^verbatim>\<open>A\<close> to \<^verbatim>\<open>F\<close> and \<^verbatim>\<open>a\<close> to \<^verbatim>\<open>f\<close> to 10 to 15, and every other
  character to 0, as a value and not as an error. So \<^const>\<open>hexaddr2decaddr\<close> gives a
  string the result of the string that has \<^verbatim>\<open>0\<close> in the place of every character
  behind the first two that is no hexadecimal digit: the same value, or the same
  undefined behaviour. For up to eight characters behind the first two bytes the value
  is the sum of the digit values of \<^const>\<open>char2int\<close>, each times its power of 16.
\<close>

theorem char2int_digit_mapping:
  "map char2int ''0123456789'' = [0, 1, 2, 3, 4, 5, 6, 7, 8, 9] \<and>
   map char2int ''ABCDEF'' = [10, 11, 12, 13, 14, 15] \<and>
   map char2int ''abcdef'' = [10, 11, 12, 13, 14, 15] \<and>
   (\<forall>c. \<not> is_hex c \<longrightarrow> char2int c = 0) \<and>
   (\<forall>s. hexaddr2decaddr s = hexaddr2decaddr (take 2 s @ zero_non_hex (c_str (drop 2 s)))) \<and>
   (\<forall>prefix ds. length prefix = 2 \<and> length (c_str ds) \<le> 8 \<longrightarrow>
      hexaddr2decaddr (prefix @ ds) = Inr (word_of_nat (digits_value (c_str ds))))"
proof -
  have a: "map char2int ''0123456789'' = [0, 1, 2, 3, 4, 5, 6, 7, 8, 9]"
    by (simp add: char2int_def)
  have b: "map char2int ''ABCDEF'' = [10, 11, 12, 13, 14, 15]"
    by (simp add: char2int_def)
  have c: "map char2int ''abcdef'' = [10, 11, 12, 13, 14, 15]"
    by (simp add: char2int_def)
  have d: "hexaddr2decaddr (prefix @ ds) = Inr (word_of_nat (digits_value (c_str ds)))"
    if "length prefix = 2 \<and> length (c_str ds) \<le> 8" for prefix ds
    using that hex_loop_value[of "c_str ds" 0] by (simp add: hexaddr2decaddr_def)
  show ?thesis
    using a b c d non_hex_zero hexaddr2decaddr_zero_non_hex by simp
qed

theorem char2int_digit_mapping_witness:
  "\<not> is_hex (CHR ''g'') \<and> char2int (CHR ''g'') = 0 \<and>
   hexaddr2decaddr ''0x1g2'' = hexaddr2decaddr ''0x102'' \<and>
   length ''0x'' = 2 \<and> length (c_str ''1g2'') \<le> 8 \<and> digits_value (c_str ''1g2'') = 258 \<and>
   hexaddr2decaddr ''0x1g2'' = Inr 258"
proof -
  have nh: "\<not> is_hex (CHR ''g'')" by (simp add: is_hex_def)
  have cs: "c_str ''1g2'' = ''1g2''" by (simp add: c_str_def NUL_def)
  have z: "take 2 ''0x1g2'' @ zero_non_hex (c_str (drop 2 ''0x1g2'')) = ''0x102''"
    by (simp add: zero_non_hex_def is_hex_def c_str_def NUL_def)
  have v: "digits_value (c_str ''1g2'') = 258" unfolding cs by (simp add: char2int_def)
  have l: "length ''0x'' = 2 \<and> length (c_str ''1g2'') \<le> 8" unfolding cs by simp
  have j: "''0x'' @ ''1g2'' = ''0x1g2''" by simp
  from char2int_digit_mapping nh have c1: "char2int (CHR ''g'') = 0" by blast
  from char2int_digit_mapping
  have "hexaddr2decaddr ''0x1g2'' =
        hexaddr2decaddr (take 2 ''0x1g2'' @ zero_non_hex (c_str (drop 2 ''0x1g2'')))" by blast
  then have c2: "hexaddr2decaddr ''0x1g2'' = hexaddr2decaddr ''0x102''"
    by (simp only: z)
  from char2int_digit_mapping l
  have "hexaddr2decaddr (''0x'' @ ''1g2'') = Inr (word_of_nat (digits_value (c_str ''1g2'')))"
    by blast
  then have c3: "hexaddr2decaddr ''0x1g2'' = Inr 258"
    by (simp only: j v) simp
  from nh c1 c2 l v c3 show ?thesis by blast
qed

lemma digits_value_snoc: "digits_value (xs @ [c]) = digits_value xs * 16 + nat (char2int c)"
  by (induction xs) (simp_all add: algebra_simps)

lemma digits_value_hex_digits: "digits_value (hex_digits upper n) = n"
proof (induction upper n rule: hex_digits.induct)
  case (1 upper n)
  show ?case
  proof (cases "n < 16")
    case True
    then show ?thesis by (simp add: hex_digits.simps[of upper n] char2int_hex_digit)
  next
    case False
    with 1 have "digits_value (hex_digits upper (n div 16)) = n div 16" by simp
    with False show ?thesis
      by (simp add: hex_digits.simps[of upper n] digits_value_snoc char2int_hex_digit)
  qed
qed

lemma length_hex_digits: "n < 16 ^ k \<Longrightarrow> 0 < k \<Longrightarrow> length (hex_digits upper n) \<le> k"
proof (induction k arbitrary: n)
  case 0
  then show ?case by simp
next
  case (Suc k)
  show ?case
  proof (cases "n < 16")
    case True
    then show ?thesis by (simp add: hex_digits.simps[of upper n])
  next
    case False
    then have k: "0 < k" using Suc.prems by (cases k) simp_all
    from Suc.prems have "n div 16 < 16 ^ k" by (simp add: less_mult_imp_div_less mult.commute)
    with Suc.IH k have "length (hex_digits upper (n div 16)) \<le> k" by blast
    with False show ?thesis by (simp add: hex_digits.simps[of upper n])
  qed
qed


lemma digits_value_zeros: "digits_value (replicate k (CHR ''0'') @ ds) = digits_value ds"
  by (induction k) (simp_all add: char2int_def)

lemma hex_digit_not_NUL: "d < 16 \<Longrightarrow> hex_digit upper d \<noteq> NUL"
proof -
  assume "d < 16"
  then have "d \<in> {0,1,2,3,4,5,6,7,8,9,10,11,12,13,14,15}" by (simp only: insert_iff empty_iff) arith
  then show ?thesis by (auto simp: hex_digit_def NUL_def)
qed

lemma hex_digits_no_NUL: "NUL \<notin> set (hex_digits upper n)"
proof (induction upper n rule: hex_digits.induct)
  case (1 upper n)
  show ?case
  proof (cases "n < 16")
    case True
    then show ?thesis using hex_digit_not_NUL[of n upper] by (simp add: hex_digits.simps[of upper n])
  next
    case False
    with 1 have "NUL \<notin> set (hex_digits upper (n div 16))" by simp
    moreover have "hex_digit upper (n mod 16) \<noteq> NUL" by (rule hex_digit_not_NUL) simp
    ultimately show ?thesis using False by (simp add: hex_digits.simps[of upper n])
  qed
qed

text \<open>
  C5: a number below \<open>2 ^ 32\<close>, written in hexadecimal with lowercase or uppercase
  digits, with or without zeros in front up to eight digits, behind a prefix of two
  characters, is parsed by \<^const>\<open>hexaddr2decaddr\<close> to the 32-bit value whose unsigned
  reading is the number.
\<close>

theorem hexaddr2decaddr_roundtrip:
  assumes "length prefix = 2" and "n < 2 ^ 32" and "width \<le> 8"
  shows "hexaddr2decaddr (format_hex prefix upper width n) = Inr (word_of_nat n) \<and>
         unat (word_of_nat n :: 32 word) = n"
proof -
  let ?ds = "replicate (width - length (hex_digits upper n)) (CHR ''0'') @ hex_digits upper n"
  have "n < 16 ^ 8" using assms(2) by simp
  then have "length (hex_digits upper n) \<le> 8" by (rule length_hex_digits) simp
  with assms(3) have len: "length ?ds \<le> 8" by simp
  have "CHR ''0'' \<noteq> NUL" by (simp add: NUL_def)
  then have "NUL \<notin> set ?ds" using hex_digits_no_NUL[of upper n] by auto
  then have "c_str ?ds = ?ds" by (rule c_str_plain)
  then have "hexaddr2decaddr (format_hex prefix upper width n) = hex_loop ?ds 0"
    using assms(1) by (simp add: hexaddr2decaddr_def format_hex_def)
  also have "\<dots> = Inr (word_of_nat n)"
    using hex_loop_value[OF len, of 0]
    by (simp only: digits_value_zeros digits_value_hex_digits) simp
  finally have "hexaddr2decaddr (format_hex prefix upper width n) = Inr (word_of_nat n)" .
  moreover have "unat (word_of_nat n :: 32 word) = n"
    using assms(2) by (simp add: unat_of_nat take_bit_nat_eq_self)
  ultimately show ?thesis by blast
qed

theorem hexaddr2decaddr_roundtrip_witness:
  "length ''0X'' = 2 \<and> (4294963371::nat) < 2 ^ 32 \<and> (0::nat) \<le> 8 \<and>
   format_hex ''0X'' True 0 4294963371 = ''0XFFFFF0AB'' \<and>
   hexaddr2decaddr ''0XFFFFF0AB'' = Inr 4294963371 \<and>
   (700416::nat) < 2 ^ 32 \<and> (8::nat) \<le> 8 \<and>
   format_hex ''0x'' False 8 700416 = ''0x000ab000'' \<and>
   hexaddr2decaddr ''0x000ab000'' = Inr 700416"
proof -
  have d1: "hex_digits True 4294963371 = ''FFFFF0AB''"
    by (simp add: hex_digits.simps hex_digit_def)
  have d2: "hex_digits False 700416 = ''ab000''"
    by (simp add: hex_digits.simps hex_digit_def)
  have f: "format_hex ''0X'' True 0 4294963371 = ''0XFFFFF0AB''"
    by (simp add: format_hex_def d1)
  have g: "format_hex ''0x'' False 8 700416 = ''0x000ab000''"
    by (simp add: format_hex_def d2 numeral_3_eq_3)
  have l: "length ''0X'' = 2" "length ''0x'' = 2" by simp_all
  have n: "(4294963371::nat) < 2 ^ 32" "(700416::nat) < 2 ^ 32" by simp_all
  have w: "(0::nat) \<le> 8" "(8::nat) \<le> 8" by simp_all
  show ?thesis
    using hexaddr2decaddr_roundtrip[OF l(1) n(1) w(1), of True]
          hexaddr2decaddr_roundtrip[OF l(2) n(2) w(2), of False] f g
    by simp
qed

section \<open>Properties of backtrace\<close>

lemma upt_1_6: "[1..<6] = [1, 2, 3, 4, 5::nat]"
  by (simp add: upt_rec)

lemma frame_records_append: "frame_records (xs @ ys) = frame_records xs @ frame_records ys"
  by (simp add: frame_records_def)

lemma symbol_offsets_append: "symbol_offsets (xs @ ys) = symbol_offsets xs @ symbol_offsets ys"
  by (simp add: symbol_offsets_def)

lemma frame_records_frame:
  "frame_records (backtrace_frame e fp) = [(fp, mem_word e (fp + 4))]"
  by (simp add: frame_records_def backtrace_frame_def Let_def upt_1_6)

lemma symbol_offsets_frame:
  "symbol_offsets (backtrace_frame e fp) =
     [mem_word e (fp + 4) - eip_fn_addr (debuginfo_eip e (mem_word e (fp + 4)))]"
  by (simp add: symbol_offsets_def backtrace_frame_def Let_def upt_1_6)

lemma frame_records_frames:
  "frame_records (concat (map (backtrace_frame e) fps)) = map (\<lambda>fp. (fp, mem_word e (fp + 4))) fps"
  by (induction fps) (simp_all add: frame_records_append frame_records_frame, simp add: frame_records_def)

lemma symbol_offsets_frames:
  "symbol_offsets (concat (map (backtrace_frame e) fps)) =
     map (\<lambda>fp. mem_word e (fp + 4) - eip_fn_addr (debuginfo_eip e (mem_word e (fp + 4)))) fps"
  by (induction fps) (simp_all add: symbol_offsets_append symbol_offsets_frame, simp add: symbol_offsets_def)

lemma backtrace_loop_chain:
  "frame_chain e fp fps \<Longrightarrow>
   backtrace_loop e fp out = Some (out @ concat (map (backtrace_frame e) fps))"
proof (induction fps arbitrary: fp out)
  case Nil
  then show ?case by (simp add: backtrace_loop.simps)
next
  case (Cons f fps)
  then have "fp = f" "f \<noteq> 0" "frame_chain e (mem_word e f) fps" by simp_all
  then show ?case
    using Cons.IH[of "mem_word e f" "out @ backtrace_frame e f"]
    by (subst backtrace_loop.simps) simp
qed

lemma link_Suc: "link e (Suc i) fp = link e i (mem_word e fp)"
  by (simp add: link_def funpow_swap1)

lemma link_0: "link e 0 fp = fp"
  by (simp add: link_def)

lemma backtrace_loop_reaches_zero:
  assumes "backtrace_loop e fp out = Some y"
  shows "\<exists>n. link e n fp = 0"
proof (rule backtrace_loop.raw_induct[where P = "\<lambda>e fp out y. \<exists>n. link e n fp = 0", OF _ assms])
  fix loop e fp out y
  assume ih: "\<And>e fp out y. loop e fp out = Some y \<Longrightarrow> \<exists>n. link e n fp = 0"
    and st: "(if fp \<noteq> 0 then loop e (mem_word e fp) (out @ backtrace_frame e fp)
              else Some out) = Some y"
  show "\<exists>n. link e n fp = 0"
  proof (cases "fp = 0")
    case True
    then have "link e 0 fp = 0" by (simp add: link_0)
    then show ?thesis by blast
  next
    case False
    with st have "loop e (mem_word e fp) (out @ backtrace_frame e fp) = Some y" by simp
    then obtain n where "link e n (mem_word e fp) = 0" using ih by blast
    then have "link e (Suc n) fp = 0" by (simp add: link_Suc)
    then show ?thesis by blast
  qed
qed

lemma chain_of_links:
  "link e N fp = 0 \<Longrightarrow> \<forall>i<N. link e i fp \<noteq> 0 \<Longrightarrow>
   frame_chain e fp (map (\<lambda>i. link e i fp) [0..<N])"
proof (induction N arbitrary: fp)
  case 0
  then show ?case by (simp add: link_0)
next
  case (Suc N)
  from Suc.prems have a: "link e N (mem_word e fp) = 0" by (simp add: link_Suc)
  have b: "\<forall>i<N. link e i (mem_word e fp) \<noteq> 0"
  proof (intro allI impI)
    fix i assume "i < N"
    then have "link e (Suc i) fp \<noteq> 0" using Suc.prems(2) by simp
    then show "link e i (mem_word e fp) \<noteq> 0" by (simp add: link_Suc)
  qed
  have "link e 0 fp \<noteq> 0" using Suc.prems(2) by blast
  then have nz: "fp \<noteq> 0" by (simp add: link_0)
  have m: "map (\<lambda>i. link e i fp) [0..<Suc N] = fp # map (\<lambda>i. link e i (mem_word e fp)) [0..<N]"
    by (simp only: map_upt_Suc link_Suc link_0)
  show ?case unfolding m using Suc.IH[OF a b] nz by simp
qed

lemma chain_links:
  "frame_chain e fp fps \<Longrightarrow>
   link e (length fps) fp = 0 \<and> (\<forall>i<length fps. link e i fp = fps ! i \<and> fps ! i \<noteq> 0)"
proof (induction fps arbitrary: fp)
  case Nil
  then show ?case by (simp add: link_0)
next
  case (Cons f fps)
  from Cons.prems have c: "fp = f" "f \<noteq> 0" "frame_chain e (mem_word e f) fps" by simp_all
  from Cons.IH[OF c(3)] have ih: "link e (length fps) (mem_word e f) = 0"
    "\<forall>i<length fps. link e i (mem_word e f) = fps ! i \<and> fps ! i \<noteq> 0" by simp_all
  show ?case
  proof (intro conjI allI impI)
    show "link e (length (f # fps)) fp = 0" using ih(1) c(1) by (simp add: link_Suc)
  next
    fix i assume "i < length (f # fps)"
    then show "link e i fp = (f # fps) ! i" using ih(2) c(1)
      by (cases i) (simp_all add: link_Suc link_0)
  next
    fix i assume "i < length (f # fps)"
    then show "(f # fps) ! i \<noteq> 0" using ih(2) c(2) by (cases i) simp_all
  qed
qed

lemma backtrace_loop_never_zero:
  "\<forall>n. link e n fp \<noteq> 0 \<Longrightarrow> backtrace_loop e fp out = None"
  using backtrace_loop_reaches_zero[of e fp out] by (cases "backtrace_loop e fp out") auto

text \<open>
  C1: on a stack of \<open>N\<close> frames that are linked through their saved frame pointers and
  end in a saved frame pointer of zero, \<^const>\<open>mon_backtrace\<close> returns 0 with the
  header line and then the lines of the frames, innermost first. There are exactly
  \<open>N\<close> frame lines; the line of a frame reports its frame pointer and, as return address,
  the word that memory holds four bytes above it; its symbol line reports the return
  address minus the start of the function that the debug information resolves it to.
\<close>

theorem mon_backtrace_frames:
  assumes "frame_chain e (read_ebp e) fps"
  shows "\<exists>out. mon_backtrace e argc argv tf = returns out 0 \<and>
           out = Cprintf ''Stack backtrace:\<newline>'' [] # concat (map (backtrace_frame e) fps) \<and>
           length (frame_records out) = length fps \<and>
           frame_records out = map (\<lambda>fp. (fp, mem_word e (fp + 4))) fps \<and>
           symbol_offsets out =
             map (\<lambda>fp. mem_word e (fp + 4) - eip_fn_addr (debuginfo_eip e (mem_word e (fp + 4)))) fps"
proof -
  let ?hd = "Cprintf ''Stack backtrace:\<newline>'' []"
  let ?out = "?hd # concat (map (backtrace_frame e) fps)"
  have "backtrace_loop e (read_ebp e) [?hd] = Some ?out"
    using backtrace_loop_chain[OF assms, of "[?hd]"] by simp
  then have r: "mon_backtrace e argc argv tf = returns ?out 0"
    by (simp add: mon_backtrace_def)
  have "frame_records [?hd] = []" by (simp add: frame_records_def)
  then have f: "frame_records ?out = map (\<lambda>fp. (fp, mem_word e (fp + 4))) fps"
    using frame_records_append[of "[?hd]" "concat (map (backtrace_frame e) fps)"]
    by (simp add: frame_records_frames)
  have "symbol_offsets [?hd] = []" by (simp add: symbol_offsets_def)
  then have s: "symbol_offsets ?out =
      map (\<lambda>fp. mem_word e (fp + 4) - eip_fn_addr (debuginfo_eip e (mem_word e (fp + 4)))) fps"
    using symbol_offsets_append[of "[?hd]" "concat (map (backtrace_frame e) fps)"]
    by (simp add: symbol_offsets_frames)
  from f have "length (frame_records ?out) = length fps" by simp
  with r f s show ?thesis by blast
qed

theorem mon_backtrace_frames_witness:
  "frame_chain example_env (read_ebp example_env) [0xf010ff18, 0xf010ff38] \<and>
   (\<exists>out. mon_backtrace example_env 1 [''backtrace''] 0 = returns out 0 \<and>
      frame_records out = [(0xf010ff18, 0xf0100068), (0xf010ff38, 0xf01000d4)] \<and>
      symbol_offsets out = [0x28, 0x94])"
proof -
  have c: "frame_chain example_env (read_ebp example_env) [0xf010ff18, 0xf010ff38]"
    by (simp add: example_env_def)
  have m: "map (\<lambda>fp. (fp, mem_word example_env (fp + 4))) [0xf010ff18, 0xf010ff38] =
           [(0xf010ff18, 0xf0100068), (0xf010ff38, 0xf01000d4)]"
    by (simp add: example_env_def)
  have o: "map (\<lambda>fp. mem_word example_env (fp + 4) -
               eip_fn_addr (debuginfo_eip example_env (mem_word example_env (fp + 4))))
             [0xf010ff18, 0xf010ff38] = [0x28, 0x94]"
    by (simp add: example_env_def example_debuginfo_def)
  from mon_backtrace_frames[OF c, of 1 "[''backtrace'']" 0] show ?thesis
    using c unfolding m o by blast
qed

text \<open>
  C2: \<^const>\<open>mon_backtrace\<close> returns if and only if the chain of saved frame pointers
  reaches zero. On a chain that never does, a cyclic one for instance, it does not
  return: no depth is checked and no cycle is looked for. On a chain that reaches zero
  behind \<open>N\<close> links and not before, the loop makes exactly \<open>N\<close> passes, one for each of
  the frame pointers behind 0 to \<open>N - 1\<close> links.
\<close>

theorem mon_backtrace_termination:
  "(mon_backtrace e argc argv tf \<noteq> None) = (\<exists>n. link e n (read_ebp e) = 0) \<and>
   ((\<forall>n. link e n (read_ebp e) \<noteq> 0) \<longrightarrow> mon_backtrace e argc argv tf = None) \<and>
   (\<forall>N. link e N (read_ebp e) = 0 \<and> (\<forall>i<N. link e i (read_ebp e) \<noteq> 0) \<longrightarrow>
      (\<exists>out. mon_backtrace e argc argv tf = returns out 0 \<and>
         out = Cprintf ''Stack backtrace:\<newline>'' [] #
               concat (map (\<lambda>i. backtrace_frame e (link e i (read_ebp e))) [0..<N]) \<and>
         length (frame_records out) = N))"
proof -
  let ?hd = "Cprintf ''Stack backtrace:\<newline>'' []"
  have never: "mon_backtrace e argc argv tf = None" if "\<forall>n. link e n (read_ebp e) \<noteq> 0"
    using backtrace_loop_never_zero[OF that, of "[?hd]"] by (simp add: mon_backtrace_def)
  have stops: "\<exists>out. mon_backtrace e argc argv tf = returns out 0 \<and>
         out = ?hd # concat (map (\<lambda>i. backtrace_frame e (link e i (read_ebp e))) [0..<N]) \<and>
         length (frame_records out) = N"
    if z: "link e N (read_ebp e) = 0" and nz: "\<forall>i<N. link e i (read_ebp e) \<noteq> 0" for N
  proof -
    let ?fps = "map (\<lambda>i. link e i (read_ebp e)) [0..<N]"
    have c: "frame_chain e (read_ebp e) ?fps" using chain_of_links[OF z nz] .
    have "backtrace_loop e (read_ebp e) [?hd] = Some ([?hd] @ concat (map (backtrace_frame e) ?fps))"
      by (rule backtrace_loop_chain[OF c])
    then have r: "mon_backtrace e argc argv tf = returns (?hd # concat (map (backtrace_frame e) ?fps)) 0"
      by (simp add: mon_backtrace_def)
    have "frame_records (?hd # concat (map (backtrace_frame e) ?fps)) =
               frame_records (concat (map (backtrace_frame e) ?fps))"
      by (simp add: frame_records_def)
    also have "\<dots> = map (\<lambda>fp. (fp, mem_word e (fp + 4))) ?fps"
      by (rule frame_records_frames)
    finally have "length (frame_records (?hd # concat (map (backtrace_frame e) ?fps))) =
                  length ?fps" by (simp only: length_map)
    then have l: "length (frame_records (?hd # concat (map (backtrace_frame e) ?fps))) = N"
      by (simp only: length_map length_upt diff_zero)
    have "map (backtrace_frame e) ?fps = map (\<lambda>i. backtrace_frame e (link e i (read_ebp e))) [0..<N]"
      by (simp add: comp_def)
    with r l show ?thesis by metis
  qed
  have iff: "(mon_backtrace e argc argv tf \<noteq> None) = (\<exists>n. link e n (read_ebp e) = 0)"
  proof
    assume "mon_backtrace e argc argv tf \<noteq> None"
    with never show "\<exists>n. link e n (read_ebp e) = 0" by blast
  next
    assume ex: "\<exists>n. link e n (read_ebp e) = 0"
    define N where "N = (LEAST n. link e n (read_ebp e) = 0)"
    have z: "link e N (read_ebp e) = 0" unfolding N_def using ex by (rule LeastI_ex)
    have nz: "\<forall>i<N. link e i (read_ebp e) \<noteq> 0" unfolding N_def using not_less_Least by blast
    from stops[OF z nz] show "mon_backtrace e argc argv tf \<noteq> None" by (auto simp: returns_def)
  qed
  from iff never stops show ?thesis by blast
qed

lemma cyclic_link: "link cyclic_env n fp = fp"
  by (induction n) (simp_all add: link_0 link_Suc, simp add: cyclic_env_def)

theorem mon_backtrace_termination_witness:
  "link cyclic_env 5 (read_ebp cyclic_env) = read_ebp cyclic_env \<and>
   read_ebp cyclic_env \<noteq> 0 \<and>
   mon_backtrace cyclic_env 1 [''backtrace''] 0 = None \<and>
   link example_env 0 (read_ebp example_env) \<noteq> 0 \<and>
   link example_env 1 (read_ebp example_env) \<noteq> 0 \<and>
   link example_env 2 (read_ebp example_env) = 0 \<and>
   (\<exists>out. mon_backtrace example_env 1 [''backtrace''] 0 = returns out 0 \<and>
      length (frame_records out) = 2)"
proof -
  have r: "read_ebp cyclic_env \<noteq> 0" by (simp add: cyclic_env_def example_env_def)
  then have a: "\<forall>n. link cyclic_env n (read_ebp cyclic_env) \<noteq> 0"
    by (simp add: cyclic_link)
  have l0: "link example_env 0 (read_ebp example_env) = 0xf010ff18"
    by (simp add: link_0 example_env_def)
  have l1: "link example_env (Suc 0) (read_ebp example_env) = 0xf010ff38"
    by (simp add: link_Suc link_0 example_env_def)
  have "link example_env (Suc (Suc 0)) (read_ebp example_env) = 0"
    by (simp add: link_Suc link_0 example_env_def)
  then have l2: "link example_env 2 (read_ebp example_env) = 0"
    by (simp only: numeral_2_eq_2)
  have b: "\<forall>i<2. link example_env i (read_ebp example_env) \<noteq> 0"
  proof (intro allI impI)
    fix i :: nat assume "i < 2"
    then have "i = 0 \<or> i = Suc 0" by arith
    then show "link example_env i (read_ebp example_env) \<noteq> 0" using l0 l1 by auto
  qed
  from mon_backtrace_termination[of cyclic_env 1 "[''backtrace'']" 0] a
  have c: "mon_backtrace cyclic_env 1 [''backtrace''] 0 = None" by blast
  from mon_backtrace_termination[of example_env 1 "[''backtrace'']" 0] l2 b
  have d: "\<exists>out. mon_backtrace example_env 1 [''backtrace''] 0 = returns out 0 \<and>
      length (frame_records out) = 2" by blast
  have "link example_env 0 (read_ebp example_env) \<noteq> 0"
    "link example_env 1 (read_ebp example_env) \<noteq> 0"
    using l0 l1 by simp_all
  with r c d l2 show ?thesis by (simp add: cyclic_link)
qed

section \<open>Properties of the range sweep\<close>

lemma unat_PGSIZE: "unat PGSIZE = 4096"
  by (simp add: PGSIZE_def)

lemma unat_page_step:
  assumes "unat low + i * 4096 < 2 ^ 32"
  shows "unat (low + of_nat i * PGSIZE) = unat low + i * 4096"
proof -
  from assms have i: "i * 4096 < 2 ^ 32" by simp
  then have "i < 2 ^ 32" by simp
  then have "unat (of_nat i :: 32 word) = i"
    by (simp add: unat_of_nat take_bit_nat_eq_self)
  then have "unat (of_nat i * PGSIZE :: 32 word) = i * 4096"
    using i by (simp add: unat_word_ariths(2) unat_PGSIZE)
  then show ?thesis using assms by (simp add: unat_word_ariths(1))
qed

lemma page_step_Suc: "low + of_nat (Suc i) * PGSIZE = (low + PGSIZE) + of_nat i * PGSIZE"
  by (simp add: algebra_simps)

lemma showmappings_loop_steps:
  "\<forall>i<k. low + of_nat i * PGSIZE \<le> high \<Longrightarrow> \<not> low + of_nat k * PGSIZE \<le> high \<Longrightarrow>
   showmappings_loop e low high out =
     Some (out @ concat (map (\<lambda>i. fst (showmappings e (low + of_nat i * PGSIZE))) [0..<k]))"
proof (induction k arbitrary: low out)
  case 0
  then show ?case by (subst showmappings_loop.simps) simp
next
  case (Suc k)
  from Suc.prems(1) have le: "low \<le> high" by force
  have a: "\<forall>i<k. (low + PGSIZE) + of_nat i * PGSIZE \<le> high"
  proof (intro allI impI)
    fix i assume "i < k"
    then have "low + of_nat (Suc i) * PGSIZE \<le> high" using Suc.prems(1) by blast
    then show "(low + PGSIZE) + of_nat i * PGSIZE \<le> high" unfolding page_step_Suc .
  qed
  have b: "\<not> (low + PGSIZE) + of_nat k * PGSIZE \<le> high"
    using Suc.prems(2) unfolding page_step_Suc .
  have m: "map (\<lambda>i. fst (showmappings e (low + of_nat i * PGSIZE))) [0..<Suc k] =
           fst (showmappings e low) #
           map (\<lambda>i. fst (showmappings e ((low + PGSIZE) + of_nat i * PGSIZE))) [0..<k]"
    by (simp only: map_upt_Suc page_step_Suc) simp
  show ?case
    using Suc.IH[OF a b, of "out @ fst (showmappings e low)"] le
    by (subst showmappings_loop.simps) (simp add: m del: upt_Suc)
qed

lemma showmappings_loop_leaves:
  assumes "showmappings_loop e low high out = Some y"
  shows "\<exists>k. \<not> low + of_nat k * PGSIZE \<le> high"
proof (rule showmappings_loop.raw_induct[where P = "\<lambda>e low high out y. \<exists>k. \<not> low + of_nat k * PGSIZE \<le> high", OF _ assms])
  fix loop e low high out y
  assume ih: "\<And>e low high out y. loop e low high out = Some y \<Longrightarrow> \<exists>k. \<not> low + of_nat k * PGSIZE \<le> high"
    and st: "(if low \<le> high then loop e (low + PGSIZE) high (out @ fst (showmappings e low))
              else Some out) = Some y"
  show "\<exists>k. \<not> low + of_nat k * PGSIZE \<le> high"
  proof (cases "low \<le> high")
    case False
    then have "\<not> low + of_nat 0 * PGSIZE \<le> high" by simp
    then show ?thesis by blast
  next
    case True
    with st have "loop e (low + PGSIZE) high (out @ fst (showmappings e low)) = Some y" by simp
    then obtain k where "\<not> (low + PGSIZE) + of_nat k * PGSIZE \<le> high" using ih by blast
    then have "\<not> low + of_nat (Suc k) * PGSIZE \<le> high" unfolding page_step_Suc .
    then show ?thesis by blast
  qed
qed

lemma showmappings_loop_never_leaves:
  "\<forall>k. low + of_nat k * PGSIZE \<le> high \<Longrightarrow> showmappings_loop e low high out = None"
  using showmappings_loop_leaves[of e low high out]
  by (cases "showmappings_loop e low high out") auto

text \<open>The number of passes over a range whose upper end is more than a page below \<open>2 ^ 32\<close>.\<close>

lemma range_bounds:
  assumes "low \<le> high" and "unat high + 4096 < 2 ^ 32"
  defines "k \<equiv> (unat high - unat low) div 4096 + 1"
  shows "\<forall>i<k. low + of_nat i * PGSIZE \<le> high" and "\<not> low + of_nat k * PGSIZE \<le> high"
proof -
  have lh: "unat low \<le> unat high" using assms(1) by (simp add: word_le_nat_alt)
  show "\<forall>i<k. low + of_nat i * PGSIZE \<le> high"
  proof (intro allI impI)
    fix i assume "i < k"
    then have "i \<le> (unat high - unat low) div 4096" by (simp add: k_def)
    then have "i * 4096 \<le> unat high - unat low"
      by (simp add: less_eq_div_iff_mult_less_eq)
    with lh have b: "unat low + i * 4096 \<le> unat high" by simp
    with assms(2) have "unat low + i * 4096 < 2 ^ 32" by simp
    then have "unat (low + of_nat i * PGSIZE) = unat low + i * 4096" by (rule unat_page_step)
    with b show "low + of_nat i * PGSIZE \<le> high" by (simp add: word_le_nat_alt)
  qed
  have "unat high - unat low < 4096 + 4096 * ((unat high - unat low) div 4096)"
    by (rule dividend_less_times_div) simp
  then have "unat high - unat low < k * 4096" by (simp add: k_def)
  with lh have c: "unat high < unat low + k * 4096" by simp
  have "(unat high - unat low) div 4096 * 4096 \<le> unat high - unat low" by simp
  then have "k * 4096 \<le> unat high - unat low + 4096" by (simp add: k_def)
  with lh assms(2) have "unat low + k * 4096 < 2 ^ 32" by simp
  then have "unat (low + of_nat k * PGSIZE) = unat low + k * 4096" by (rule unat_page_step)
  with c show "\<not> low + of_nat k * PGSIZE \<le> high" by (simp add: word_le_nat_alt)
qed

lemma translated_append: "translated (xs @ ys) = translated xs @ translated ys"
  by (simp add: translated_def)

lemma translated_showmappings: "translated (fst (showmappings e v)) = [v]"
  by (simp add: translated_def showmappings_def split: option.splits)

lemma translated_sweep:
  "translated (concat (map (\<lambda>i. fst (showmappings e (f i))) xs)) = map f xs"
proof (induction xs)
  case Nil
  then show ?case by (simp add: translated_def)
next
  case (Cons x xs)
  then show ?case by (simp add: translated_append translated_showmappings)
qed

lemma word32_le_top: "(w :: 32 word) \<le> 0xFFFFFFFF"
proof -
  have "unat w < 2 ^ 32" using unsigned_less[of w, where ?'a = nat] by simp
  then show ?thesis by (simp add: word_le_nat_alt)
qed

lemma page_multiple_le: "(w :: 32 word) * PGSIZE \<le> 0xFFFFF000"
proof -
  have "unat (w * PGSIZE) = (4096 * unat w) mod (4096 * 2 ^ 20)"
    by (simp add: unat_word_ariths(2) unat_PGSIZE mult.commute)
  also have "\<dots> = 4096 * (unat w mod 2 ^ 20)"
    by (simp only: mult_mod_right)
  finally have "unat (w * PGSIZE) = 4096 * (unat w mod 2 ^ 20)" .
  moreover have "unat w mod 2 ^ 20 \<le> 2 ^ 20 - 1"
    by (metis Suc_leI Suc_pred' le_simps(2) mod_less_divisor zero_less_numeral zero_less_power less_Suc_eq_le)
  ultimately have "unat (w * PGSIZE) \<le> 4096 * (2 ^ 20 - 1)" by simp
  then show ?thesis by (simp add: word_le_nat_alt)
qed

lemma top_page_never_leaves: "(0xFFFFF000 :: 32 word) + of_nat k * PGSIZE \<le> 0xFFFFF000"
proof -
  have "(0xFFFFF000 :: 32 word) + of_nat k * PGSIZE = (0xFFFFF + of_nat k) * PGSIZE"
    by (simp add: PGSIZE_def algebra_simps)
  then show ?thesis by (simp only: page_multiple_le)
qed

lemma below_top_page_never_leaves: "(0xFFFFE000 :: 32 word) + of_nat k * PGSIZE \<le> 0xFFFFF000"
proof -
  have "(0xFFFFE000 :: 32 word) + of_nat k * PGSIZE = (0xFFFFE + of_nat k) * PGSIZE"
    by (simp add: PGSIZE_def algebra_simps)
  then show ?thesis by (simp only: page_multiple_le)
qed

lemma showmappings_loop_range:
  assumes "unat high + 4096 < 2 ^ 32"
  shows "showmappings_loop e low high out =
     Some (out @ concat (map (\<lambda>i. fst (showmappings e (low + of_nat i * PGSIZE)))
        [0..<(if low \<le> high then (unat high - unat low) div 4096 + 1 else 0)]))"
proof (cases "low \<le> high")
  case True
  from range_bounds[OF True assms] True show ?thesis
    by (simp add: showmappings_loop_steps del: upt_Suc)
next
  case False
  then show ?thesis by (subst showmappings_loop.simps) simp
qed

lemma parse_fffff000: "hexaddr2decaddr ''0xfffff000'' = Inr 0xFFFFF000"
  by (simp add: hexaddr2decaddr_def char2int_def c_str_def NUL_def)

text \<open>
  The upper end \<^verbatim>\<open>0xfffff000\<close> is a page below \<open>2 ^ 32\<close>, and the sweep from
  \<^verbatim>\<open>0xffffe000\<close> to it never ends.
\<close>

theorem showmappings_loop_boundary:
  "unat (0xFFFFF000 :: 32 word) + unat PGSIZE \<le> 2 ^ 32 \<and>
   (0xFFFFE000 :: 32 word) \<le> 0xFFFFF000 \<and>
   showmappings_loop example_env 0xFFFFE000 0xFFFFF000 [] = None"
proof -
  have "showmappings_loop example_env 0xFFFFE000 0xFFFFF000 [] = None"
    by (rule showmappings_loop_never_leaves) (simp add: below_top_page_never_leaves)
  then show ?thesis by (simp add: unat_PGSIZE)
qed

text \<open>
  C10: the sweep of the range mode steps in 32-bit arithmetic. From \<^verbatim>\<open>0xfffff000\<close>
  to \<^verbatim>\<open>0xffffffff\<close> the step wraps to 0 and the sweep never ends. Whenever the
  upper end is more than a page below \<open>2 ^ 32\<close>, that is \<open>high + PGSIZE < 2 ^ 32\<close>, the
  sweep ends: behind \<open>(high - low) div PGSIZE + 1\<close> translations when \<open>low \<le> high\<close>, at
  \<open>low\<close>, \<open>low + PGSIZE\<close> and so on, and behind none otherwise.
\<close>

theorem showmappings_loop_termination:
  "(0xFFFFF000 :: 32 word) \<le> 0xFFFFFFFF \<and>
   (0xFFFFF000 :: 32 word) + PGSIZE = 0 \<and>
   showmappings_loop e 0xFFFFF000 0xFFFFFFFF out = None \<and>
   (\<forall>low high. unat high + unat PGSIZE < 2 ^ 32 \<longrightarrow>
      (\<exists>out'. showmappings_loop e low high [] = Some out' \<and>
         translated out' = map (\<lambda>i. low + of_nat i * PGSIZE)
           [0..<(if low \<le> high then (unat high - unat low) div unat PGSIZE + 1 else 0)]))"
proof -
  have a: "showmappings_loop e 0xFFFFF000 0xFFFFFFFF out = None"
    by (rule showmappings_loop_never_leaves) (simp add: word32_le_top)
  have b: "(0xFFFFF000 :: 32 word) + PGSIZE = 0" by (simp add: PGSIZE_def)
  have c: "\<exists>out'. showmappings_loop e low high [] = Some out' \<and>
         translated out' = map (\<lambda>i. low + of_nat i * PGSIZE)
           [0..<(if low \<le> high then (unat high - unat low) div unat PGSIZE + 1 else 0)]"
    if "unat high + unat PGSIZE < 2 ^ 32" for low high
  proof -
    from that have "unat high + 4096 < 2 ^ 32" by (simp add: unat_PGSIZE)
    from showmappings_loop_range[OF this, of e low "[]"] show ?thesis
      by (simp add: translated_sweep unat_PGSIZE del: upt_Suc)
  qed
  show ?thesis using a b c by simp
qed

theorem showmappings_loop_termination_witness:
  "unat (0xf0102000 :: 32 word) + unat PGSIZE < 2 ^ 32 \<and>
   (\<exists>out'. showmappings_loop example_env 0xf0100000 0xf0102000 [] = Some out' \<and>
      translated out' = [0xf0100000, 0xf0101000, 0xf0102000])"
proof -
  have h: "unat (0xf0102000 :: 32 word) + unat PGSIZE < 2 ^ 32" by (simp add: unat_PGSIZE)
  have n: "(if (0xf0100000 :: 32 word) \<le> 0xf0102000
            then (unat (0xf0102000 :: 32 word) - unat (0xf0100000 :: 32 word)) div unat PGSIZE + 1
            else 0) = 3"
    by (simp add: unat_PGSIZE)
  have u: "[0..<3] = [0, 1, 2::nat]" by (simp add: upt_rec)
  from showmappings_loop_termination[of example_env "[]"] h
  have "\<exists>out'. showmappings_loop example_env 0xf0100000 0xf0102000 [] = Some out' \<and>
         translated out' = map (\<lambda>i. 0xf0100000 + of_nat i * PGSIZE)
           [0..<(if (0xf0100000 :: 32 word) \<le> 0xf0102000
            then (unat (0xf0102000 :: 32 word) - unat (0xf0100000 :: 32 word)) div unat PGSIZE + 1
            else 0)]"
    by blast
  then show ?thesis using h unfolding n u by (simp add: PGSIZE_def)
qed

section \<open>Properties of the translation of one address\<close>

lemma PTE_ADDR_flags: "PTE_ADDR pte AND 0xFFF = 0"
  by (simp add: PTE_ADDR_def and.assoc)

lemma PTE_ADDR_frame: "PTE_ADDR pte = pte AND 0xFFFFF000"
proof -
  have "(NOT 0xFFF :: 32 word) = 0xFFFFF000" by simp
  then show ?thesis by (simp only: PTE_ADDR_def)
qed

text \<open>
  C4: for a virtual address with a page table entry, \<^const>\<open>showmappings\<close> reports the
  address and the entry with its twelve flag bits cleared and its frame address bits
  kept; for an address without one it reports only that there is no mapping at that
  address. With one argument \<^const>\<open>mon_showmappings\<close> does this for the address that
  the argument parses to.
\<close>

theorem showmappings_report:
  "(\<forall>pte. page_lookup e vaddr = Some pte \<longrightarrow>
      showmappings e vaddr =
        ([Cprintf ''va: %08p    '' [Ptr vaddr], Cprintf ''pa: %08p\<newline>'' [Ptr (PTE_ADDR pte)]], 0) \<and>
      PTE_ADDR pte = pte AND 0xFFFFF000 \<and> PTE_ADDR pte AND 0xFFF = 0) \<and>
   (page_lookup e vaddr = None \<longrightarrow>
      showmappings e vaddr = ([Cprintf ''No physical page mapping at %08p\<newline>'' [Ptr vaddr]], 0)) \<and>
   (\<forall>cmd hexaddr. hexaddr2decaddr hexaddr = Inr vaddr \<longrightarrow>
      mon_showmappings e 2 [cmd, hexaddr] tf = returns (fst (showmappings e vaddr)) 0)"
  by (simp add: showmappings_def PTE_ADDR_flags PTE_ADDR_frame[symmetric] mon_showmappings_def
      bind_err_def argv_at_def)

theorem showmappings_report_witness:
  "page_lookup example_env 0xf0100000 = Some 0x00100063 \<and>
   showmappings example_env 0xf0100000 =
     ([Cprintf ''va: %08p    '' [Ptr 0xf0100000], Cprintf ''pa: %08p\<newline>'' [Ptr 0x00100000]], 0) \<and>
   page_lookup example_env 0xAB000 = None \<and>
   showmappings example_env 0xAB000 =
     ([Cprintf ''No physical page mapping at %08p\<newline>'' [Ptr 0xAB000]], 0) \<and>
   hexaddr2decaddr ''0xAB000'' = Inr 0xAB000 \<and>
   mon_showmappings example_env 2 [''showmappings'', ''0xAB000''] 0 =
     returns [Cprintf ''No physical page mapping at %08p\<newline>'' [Ptr 0xAB000]] 0"
proof -
  have a: "page_lookup example_env 0xf0100000 = Some 0x00100063"
    by (simp add: example_env_def)
  have b: "page_lookup example_env 0xAB000 = None"
    by (simp add: example_env_def)
  have c: "hexaddr2decaddr ''0xAB000'' = Inr 0xAB000"
    by (simp add: hexaddr2decaddr_def char2int_def c_str_def NUL_def)
  have d: "PTE_ADDR 0x00100063 = 0x00100000" by (simp add: PTE_ADDR_def)
  from showmappings_report[of example_env "0xf0100000" 0] a
  have "showmappings example_env 0xf0100000 =
     ([Cprintf ''va: %08p    '' [Ptr 0xf0100000], Cprintf ''pa: %08p\<newline>'' [Ptr (PTE_ADDR 0x00100063)]], 0)"
    by blast
  moreover from showmappings_report[of example_env "0xAB000" 0] b c
  have "showmappings example_env 0xAB000 =
     ([Cprintf ''No physical page mapping at %08p\<newline>'' [Ptr 0xAB000]], 0)"
    and "mon_showmappings example_env 2 [''showmappings'', ''0xAB000''] 0 =
           returns (fst (showmappings example_env 0xAB000)) 0"
    by blast+
  ultimately show ?thesis using a b c d by simp
qed

section \<open>Properties of the tokenizer\<close>

lemma split_fields_not_Nil: "split_fields s \<noteq> []"
  by (induction s) (auto split: list.splits)

lemma split_fields_Cons_token:
  "c \<notin> set WHITESPACE \<Longrightarrow> split_fields (c # cs) = (c # hd (split_fields cs)) # tl (split_fields cs)"
  using split_fields_not_Nil[of cs] by (cases "split_fields cs") simp_all

lemma tokens_Nil: "tokens [] = []"
  by (simp add: tokens_def)

lemma tokens_whitespace: "w \<in> set WHITESPACE \<Longrightarrow> tokens (w # s) = tokens s"
  by (simp add: tokens_def)

lemma tokens_all_whitespace: "set s \<subseteq> set WHITESPACE \<Longrightarrow> tokens s = []"
  by (induction s) (simp_all add: tokens_Nil tokens_whitespace)

lemma tokens_token:
  "a \<noteq> [] \<Longrightarrow> set a \<inter> set WHITESPACE = {} \<Longrightarrow> s = [] \<or> hd s \<in> set WHITESPACE \<Longrightarrow>
   tokens (a @ s) = a # tokens s"
proof -
  assume ws: "s = [] \<or> hd s \<in> set WHITESPACE"
  have h: "hd (split_fields s) = [] \<and> tokens s = filter (\<lambda>t. t \<noteq> []) (tl (split_fields s))"
    using ws by (cases s) (auto simp: tokens_def)
  have f: "set a \<inter> set WHITESPACE = {} \<Longrightarrow>
           split_fields (a @ s) = (a @ hd (split_fields s)) # tl (split_fields s)"
  proof (induction a)
    case Nil
    then show ?case using split_fields_not_Nil[of s] by simp
  next
    case (Cons c a)
    then have "c \<notin> set WHITESPACE" "set a \<inter> set WHITESPACE = {}" by auto
    with Cons.IH show ?case
      by (simp add: split_fields_Cons_token del: split_fields.simps)
  qed
  assume "a \<noteq> []" "set a \<inter> set WHITESPACE = {}"
  with f h show ?thesis by (simp add: tokens_def)
qed

text \<open>What the two inner loops do.\<close>

lemma gobble_whitespace_eq:
  "gobble_whitespace front p =
     (front @ replicate (length (takeWhile (\<lambda>c. c \<in> set WHITESPACE) p)) NUL,
      dropWhile (\<lambda>c. c \<in> set WHITESPACE) p)"
  by (induction p arbitrary: front) (auto simp: NUL_not_whitespace replicate_append_same)

lemma scan_arg_eq:
  "scan_arg front p =
     (front @ takeWhile (\<lambda>c. c \<noteq> NUL \<and> c \<notin> set WHITESPACE) p,
      dropWhile (\<lambda>c. c \<noteq> NUL \<and> c \<notin> set WHITESPACE) p)"
  by (induction p arbitrary: front) auto

lemma blank_Nil: "blank [] = []"
  by (simp add: blank_def c_str_Nil)

lemma blank_at_nul: "at_nul p \<Longrightarrow> blank p = p"
  by (simp add: blank_def at_nul_c_str)

lemma blank_whitespace: "w \<in> set WHITESPACE \<Longrightarrow> blank (w # p) = NUL # blank p"
  by (simp add: blank_def c_str_Cons whitespace_not_NUL)

lemma blank_char: "c \<noteq> NUL \<Longrightarrow> c \<notin> set WHITESPACE \<Longrightarrow> blank (c # p) = c # blank p"
  by (simp add: blank_def c_str_Cons)

lemma blank_gobble:
  "blank p = replicate (length (takeWhile (\<lambda>c. c \<in> set WHITESPACE) p)) NUL @
             blank (dropWhile (\<lambda>c. c \<in> set WHITESPACE) p)"
  by (induction p) (simp_all add: blank_whitespace)

lemma blank_scan:
  "blank p = takeWhile (\<lambda>c. c \<noteq> NUL \<and> c \<notin> set WHITESPACE) p @
             blank (dropWhile (\<lambda>c. c \<noteq> NUL \<and> c \<notin> set WHITESPACE) p)"
  by (induction p) (simp_all add: blank_char)

lemma c_str_gobble:
  "tokens (c_str (dropWhile (\<lambda>c. c \<in> set WHITESPACE) p)) = tokens (c_str p)"
  by (induction p) (simp_all add: c_str_Cons whitespace_not_NUL tokens_whitespace)

lemma c_str_scan:
  "c_str p = takeWhile (\<lambda>c. c \<noteq> NUL \<and> c \<notin> set WHITESPACE) p @
             c_str (dropWhile (\<lambda>c. c \<noteq> NUL \<and> c \<notin> set WHITESPACE) p)"
  by (induction p) (auto simp: c_str_Cons)

text \<open>Behind an argument the buffer holds NUL in the end.\<close>

lemma not_hd_dropWhile: "dropWhile P p = c # cs \<Longrightarrow> \<not> P c"
  using hd_dropWhile[of P p] by simp

lemma takeWhile_arg:
  "set (takeWhile (\<lambda>c. c \<noteq> NUL \<and> c \<notin> set WHITESPACE) p) \<inter> set WHITESPACE = {} \<and>
   NUL \<notin> set (takeWhile (\<lambda>c. c \<noteq> NUL \<and> c \<notin> set WHITESPACE) p)"
proof -
  have "x \<noteq> NUL \<and> x \<notin> set WHITESPACE"
    if "x \<in> set (takeWhile (\<lambda>c. c \<noteq> NUL \<and> c \<notin> set WHITESPACE) p)" for x
    using set_takeWhileD[OF that] by simp
  then show ?thesis by blast
qed

lemma blank_behind_arg:
  assumes "r = dropWhile (\<lambda>c. c \<noteq> NUL \<and> c \<notin> set WHITESPACE) p"
  shows "at_nul (blank r) \<and> (c_str r = [] \<or> hd (c_str r) \<in> set WHITESPACE)"
proof (cases r)
  case Nil
  then show ?thesis by (simp add: blank_Nil at_nul_def c_str_Nil)
next
  case (Cons c cs)
  with assms have "dropWhile (\<lambda>c. c \<noteq> NUL \<and> c \<notin> set WHITESPACE) p = c # cs" by simp
  then have "\<not> (c \<noteq> NUL \<and> c \<notin> set WHITESPACE)" by (rule not_hd_dropWhile)
  then have "c = NUL \<or> c \<in> set WHITESPACE" by blast
  then show ?thesis
  proof
    assume "c = NUL"
    with Cons have "at_nul r" "c_str r = []" by (simp_all add: at_nul_def c_str_NUL)
    then show ?thesis by (simp add: blank_at_nul)
  next
    assume w: "c \<in> set WHITESPACE"
    then have "blank r = NUL # blank cs" using Cons by (simp add: blank_whitespace)
    moreover have "c_str r = c # c_str cs" using Cons w by (simp add: c_str_Cons whitespace_not_NUL)
    ultimately show ?thesis using w by (simp add: at_nul_def)
  qed
qed

lemma c_str_arg: "NUL \<notin> set a \<Longrightarrow> at_nul p \<Longrightarrow> c_str (a @ p) = a"
  by (simp add: c_str_append at_nul_c_str)

lemma parse_args_tokens:
  "length argv + length (tokens (c_str buf)) < MAXARGS \<Longrightarrow>
   \<exists>offsets. parse_args front buf argv = Some (front @ blank buf, argv @ offsets) \<and>
     map (\<lambda>i. c_str (drop i (front @ blank buf))) offsets = tokens (c_str buf)"
proof (induction front buf argv rule: parse_args.induct)
  case (1 front buf argv)
  let ?w = "takeWhile (\<lambda>c. c \<in> set WHITESPACE) buf"
  let ?buf1 = "dropWhile (\<lambda>c. c \<in> set WHITESPACE) buf"
  let ?front1 = "front @ replicate (length ?w) NUL"
  let ?a = "takeWhile (\<lambda>c. c \<noteq> NUL \<and> c \<notin> set WHITESPACE) ?buf1"
  let ?buf2 = "dropWhile (\<lambda>c. c \<noteq> NUL \<and> c \<notin> set WHITESPACE) ?buf1"
  have g: "gobble_whitespace front buf = (?front1, ?buf1)" by (rule gobble_whitespace_eq)
  have s: "scan_arg ?front1 ?buf1 = (?front1 @ ?a, ?buf2)" by (rule scan_arg_eq)
  have mem: "front @ blank buf = ?front1 @ blank ?buf1" using blank_gobble[of buf] by simp
  have tk: "tokens (c_str buf) = tokens (c_str ?buf1)" by (simp add: c_str_gobble)
  show ?case
  proof (cases "at_nul ?buf1")
    case True
    then have "tokens (c_str buf) = []" using tk by (simp add: at_nul_c_str tokens_Nil)
    moreover have "parse_args front buf argv = Some (?front1 @ ?buf1, argv)"
      using True g by (subst parse_args.simps) simp
    ultimately show ?thesis using mem True by (simp add: blank_at_nul)
  next
    case False
    then obtain c cs where c: "?buf1 = c # cs" "c \<noteq> NUL" by (cases ?buf1) (auto simp: at_nul_def)
    have "c \<notin> set WHITESPACE" using not_hd_dropWhile[OF c(1)] by simp
    with c have ane: "?a \<noteq> []" by simp
    have aset: "set ?a \<inter> set WHITESPACE = {}" "NUL \<notin> set ?a"
      using takeWhile_arg[of ?buf1] by simp_all
    have bh: "at_nul (blank ?buf2)" "c_str ?buf2 = [] \<or> hd (c_str ?buf2) \<in> set WHITESPACE"
      using blank_behind_arg[of ?buf2 ?buf1] by simp_all
    have t1: "tokens (c_str ?buf1) = ?a # tokens (c_str ?buf2)"
      using tokens_token[OF ane aset(1) bh(2)] c_str_scan[of ?buf1] by simp
    with "1.prems" tk have n: "length argv \<noteq> MAXARGS - 1" by simp
    from "1.prems" tk t1 have "length (argv @ [length ?front1]) + length (tokens (c_str ?buf2)) < MAXARGS"
      by simp
    from "1.IH"[OF g[symmetric] False n s[symmetric] this]
    obtain offs where o: "parse_args (?front1 @ ?a) ?buf2 (argv @ [length ?front1]) =
          Some ((?front1 @ ?a) @ blank ?buf2, (argv @ [length ?front1]) @ offs)"
      "map (\<lambda>i. c_str (drop i ((?front1 @ ?a) @ blank ?buf2))) offs = tokens (c_str ?buf2)"
      by blast
    have mem2: "front @ blank buf = (?front1 @ ?a) @ blank ?buf2"
      using mem blank_scan[of ?buf1] by simp
    have p: "parse_args front buf argv = Some (front @ blank buf, argv @ (length ?front1 # offs))"
      using False g s n o(1) mem2 by (subst parse_args.simps) simp
    have "drop (length ?front1) (front @ blank buf) = ?a @ blank ?buf2"
      unfolding mem2 by simp
    then have "c_str (drop (length ?front1) (front @ blank buf)) = ?a"
      using c_str_arg[OF aset(2) bh(1)] by simp
    with o(2) mem2 t1 tk
    have "map (\<lambda>i. c_str (drop i (front @ blank buf))) (length ?front1 # offs) = tokens (c_str buf)"
      by simp
    with p show ?thesis by blast
  qed
qed

lemma parse_args_too_many:
  "length argv < MAXARGS \<Longrightarrow> MAXARGS \<le> length argv + length (tokens (c_str buf)) \<Longrightarrow>
   parse_args front buf argv = None"
proof (induction front buf argv rule: parse_args.induct)
  case (1 front buf argv)
  let ?w = "takeWhile (\<lambda>c. c \<in> set WHITESPACE) buf"
  let ?buf1 = "dropWhile (\<lambda>c. c \<in> set WHITESPACE) buf"
  let ?front1 = "front @ replicate (length ?w) NUL"
  let ?a = "takeWhile (\<lambda>c. c \<noteq> NUL \<and> c \<notin> set WHITESPACE) ?buf1"
  let ?buf2 = "dropWhile (\<lambda>c. c \<noteq> NUL \<and> c \<notin> set WHITESPACE) ?buf1"
  have g: "gobble_whitespace front buf = (?front1, ?buf1)" by (rule gobble_whitespace_eq)
  have s: "scan_arg ?front1 ?buf1 = (?front1 @ ?a, ?buf2)" by (rule scan_arg_eq)
  have tk: "tokens (c_str buf) = tokens (c_str ?buf1)" by (simp add: c_str_gobble)
  show ?case
  proof (cases "at_nul ?buf1")
    case True
    then have "tokens (c_str buf) = []" using tk by (simp add: at_nul_c_str tokens_Nil)
    with "1.prems" show ?thesis by simp
  next
    case False
    then obtain c cs where c: "?buf1 = c # cs" "c \<noteq> NUL" by (cases ?buf1) (auto simp: at_nul_def)
    have "c \<notin> set WHITESPACE" using not_hd_dropWhile[OF c(1)] by simp
    with c have ane: "?a \<noteq> []" by simp
    have aset: "set ?a \<inter> set WHITESPACE = {}" "NUL \<notin> set ?a"
      using takeWhile_arg[of ?buf1] by simp_all
    have bh: "at_nul (blank ?buf2)" "c_str ?buf2 = [] \<or> hd (c_str ?buf2) \<in> set WHITESPACE"
      using blank_behind_arg[of ?buf2 ?buf1] by simp_all
    have t1: "tokens (c_str ?buf1) = ?a # tokens (c_str ?buf2)"
      using tokens_token[OF ane aset(1) bh(2)] c_str_scan[of ?buf1] by simp
    show ?thesis
    proof (cases "length argv = MAXARGS - 1")
      case True
      with False g show ?thesis by (subst parse_args.simps) simp
    next
      case n: False
      with "1.prems" have l: "length (argv @ [length ?front1]) < MAXARGS" by simp
      from "1.prems" tk t1 have "MAXARGS \<le> length (argv @ [length ?front1]) + length (tokens (c_str ?buf2))"
        by simp
      from "1.IH"[OF g[symmetric] False n s[symmetric] l this]
      have "parse_args (?front1 @ ?a) ?buf2 (argv @ [length ?front1]) = None" .
      with False g s n show ?thesis by (subst parse_args.simps) simp
    qed
  qed
qed

lemma parse_args_line:
  "length (tokens (c_str buf)) < MAXARGS \<Longrightarrow>
   \<exists>offsets. parse_args [] buf [] = Some (blank buf, offsets) \<and>
     map (\<lambda>i. c_str (drop i (blank buf))) offsets = tokens (c_str buf)"
  using parse_args_tokens[of "[]" buf "[]"] by simp

lemma parse_args_line_too_many:
  "MAXARGS \<le> length (tokens (c_str buf)) \<Longrightarrow> parse_args [] buf [] = None"
  using parse_args_too_many[of "[]" buf "[]"] by (simp add: MAXARGS_def)

lemma argv_strings_cases:
  "argv_strings buf =
     (if length (tokens (c_str buf)) < MAXARGS then Some (tokens (c_str buf)) else None)"
proof (cases "length (tokens (c_str buf)) < MAXARGS")
  case True
  from parse_args_line[OF this] show ?thesis using True by (auto simp: argv_strings_def)
next
  case False
  then have "parse_args [] buf [] = None" by (simp add: parse_args_line_too_many)
  with False show ?thesis by (simp add: argv_strings_def)
qed

text \<open>A second separator behind a separator changes neither the first field nor the tokens.\<close>

lemma split_fields_double_separator:
  assumes "w \<in> set WHITESPACE" and "w' \<in> set WHITESPACE"
  shows "hd (split_fields (a @ w # w' # b)) = hd (split_fields (a @ w # b)) \<and>
         filter (\<lambda>t. t \<noteq> []) (tl (split_fields (a @ w # w' # b))) =
         filter (\<lambda>t. t \<noteq> []) (tl (split_fields (a @ w # b)))"
proof (induction a)
  case Nil
  from assms show ?case by simp
next
  case (Cons c a)
  show ?case
  proof (cases "c \<in> set WHITESPACE")
    case True
    have "split_fields (a @ w # w' # b) = hd (split_fields (a @ w # w' # b)) # tl (split_fields (a @ w # w' # b))"
      using split_fields_not_Nil by simp
    moreover have "split_fields (a @ w # b) = hd (split_fields (a @ w # b)) # tl (split_fields (a @ w # b))"
      using split_fields_not_Nil by simp
    ultimately have "filter (\<lambda>t. t \<noteq> []) (split_fields (a @ w # w' # b)) =
                     filter (\<lambda>t. t \<noteq> []) (split_fields (a @ w # b))"
      using Cons.IH by (metis filter.simps(2))
    with True show ?thesis by simp
  next
    case False
    with Cons.IH show ?thesis by (simp add: split_fields_Cons_token del: split_fields.simps)
  qed
qed

lemma tokens_double_separator:
  assumes "w \<in> set WHITESPACE" and "w' \<in> set WHITESPACE"
  shows "tokens (a @ w # w' # b) = tokens (a @ w # b)"
proof -
  have "split_fields (a @ w # w' # b) = hd (split_fields (a @ w # w' # b)) # tl (split_fields (a @ w # w' # b))"
    using split_fields_not_Nil by simp
  moreover have "split_fields (a @ w # b) = hd (split_fields (a @ w # b)) # tl (split_fields (a @ w # b))"
    using split_fields_not_Nil by simp
  ultimately show ?thesis
    unfolding tokens_def using split_fields_double_separator[OF assms, of a b] by (metis filter.simps(2))
qed

lemma tokens_wellformed: "t \<in> set (tokens s) \<Longrightarrow> t \<noteq> [] \<and> set t \<inter> set WHITESPACE = {}"
proof -
  have "\<forall>t \<in> set (split_fields s). set t \<inter> set WHITESPACE = {}"
  proof (induction s)
    case Nil
    then show ?case by simp
  next
    case (Cons c s)
    show ?case
    proof (cases "c \<in> set WHITESPACE")
      case True
      with Cons show ?thesis by simp
    next
      case False
      have "split_fields s = hd (split_fields s) # tl (split_fields s)" using split_fields_not_Nil by simp
      then have "set (hd (split_fields s)) \<inter> set WHITESPACE = {}"
        "\<forall>t \<in> set (tl (split_fields s)). set t \<inter> set WHITESPACE = {}"
        using Cons by (metis list.set_intros(1), metis list.set_intros(2))
      with False show ?thesis by (simp add: split_fields_Cons_token del: split_fields.simps)
    qed
  qed
  moreover assume "t \<in> set (tokens s)"
  ultimately show ?thesis by (simp add: tokens_def)
qed

lemma tokens_c_str_double_separator:
  assumes "w \<in> set WHITESPACE" and "w' \<in> set WHITESPACE"
  shows "tokens (c_str (a @ w # w' # b)) = tokens (c_str (a @ w # b))"
proof (cases "NUL \<in> set a")
  case True
  then show ?thesis by (simp add: c_str_cut)
next
  case False
  with assms show ?thesis
    by (simp add: c_str_append c_str_Cons whitespace_not_NUL tokens_double_separator)
qed

text \<open>
  C7: for every line of at most fifteen tokens, the loop of \<^const>\<open>parse_args\<close> in
  \<^verbatim>\<open>runcmd\<close> yields pointers at exactly the tokens of the line, in order: the
  non-empty fields between tab, carriage return, newline and space. It leaves the
  buffer with the whitespace of the line overwritten with NUL. A line of whitespace
  only, or an empty one, yields no token. A second separator behind a separator never
  changes the result, and no token is empty or holds a separator.
\<close>

theorem parse_args_splits_line:
  "(length (tokens (c_str buf)) < MAXARGS \<longrightarrow>
      argv_strings buf = Some (tokens (c_str buf)) \<and>
      (\<exists>offsets. parse_args [] buf [] = Some (blank buf, offsets))) \<and>
   (set (c_str buf) \<subseteq> set WHITESPACE \<longrightarrow> argv_strings buf = Some []) \<and>
   (\<forall>a b w w'. w \<in> set WHITESPACE \<and> w' \<in> set WHITESPACE \<longrightarrow>
      argv_strings (a @ w # w' # b) = argv_strings (a @ w # b)) \<and>
   (\<forall>t \<in> set (tokens (c_str buf)). t \<noteq> [] \<and> set t \<inter> set WHITESPACE = {})"
proof -
  have a: "argv_strings buf = Some (tokens (c_str buf)) \<and>
           (\<exists>offsets. parse_args [] buf [] = Some (blank buf, offsets))"
    if "length (tokens (c_str buf)) < MAXARGS"
    using that parse_args_line[OF that] by (auto simp: argv_strings_cases)
  have b: "argv_strings buf = Some []" if "set (c_str buf) \<subseteq> set WHITESPACE"
    using tokens_all_whitespace[OF that] by (simp add: argv_strings_cases MAXARGS_def)
  have c: "argv_strings (a @ w # w' # b) = argv_strings (a @ w # b)"
    if "w \<in> set WHITESPACE \<and> w' \<in> set WHITESPACE" for a b w w'
    using that by (simp add: argv_strings_cases tokens_c_str_double_separator)
  have d: "\<forall>t \<in> set (tokens (c_str buf)). t \<noteq> [] \<and> set t \<inter> set WHITESPACE = {}"
    using tokens_wellformed by blast
  from a b c d show ?thesis by blast
qed

lemma tokens_example:
  "tokens (c_str (''  showmappings'' @ [CHR 0x09, CHR '' ''] @ ''0x1000   0x2000'' @
                  [CHR 0x0D, CHR 0x0A, NUL] @ ''kerninfo'')) =
     [''showmappings'', ''0x1000'', ''0x2000'']"
  by (simp add: tokens_def WHITESPACE_def c_str_def NUL_def)

lemma tokens_sixteen:
  "tokens (c_str ''a b c d e f g h i j k l m n o p'') =
     [''a'', ''b'', ''c'', ''d'', ''e'', ''f'', ''g'', ''h'', ''i'', ''j'', ''k'', ''l'', ''m'',
      ''n'', ''o'', ''p'']"
  by (simp add: tokens_def WHITESPACE_def c_str_def NUL_def)

theorem parse_args_splits_line_witness:
  "length (tokens (c_str (''  showmappings'' @ [CHR 0x09, CHR '' ''] @ ''0x1000   0x2000'' @
                          [CHR 0x0D, CHR 0x0A, NUL] @ ''kerninfo''))) < MAXARGS \<and>
   argv_strings (''  showmappings'' @ [CHR 0x09, CHR '' ''] @ ''0x1000   0x2000'' @
                 [CHR 0x0D, CHR 0x0A, NUL] @ ''kerninfo'') =
     Some [''showmappings'', ''0x1000'', ''0x2000''] \<and>
   set (c_str [CHR '' '', CHR 0x09, CHR '' '']) \<subseteq> set WHITESPACE \<and>
   argv_strings [CHR '' '', CHR 0x09, CHR '' ''] = Some [] \<and>
   argv_strings ''a  b'' = argv_strings ''a b''"
proof -
  let ?l = "''  showmappings'' @ [CHR 0x09, CHR '' ''] @ ''0x1000   0x2000'' @
            [CHR 0x0D, CHR 0x0A, NUL] @ ''kerninfo''"
  have l: "length (tokens (c_str ?l)) < MAXARGS" unfolding tokens_example by (simp add: MAXARGS_def)
  have w: "set (c_str [CHR '' '', CHR 0x09, CHR '' '']) \<subseteq> set WHITESPACE"
    by (simp add: WHITESPACE_def c_str_def NUL_def)
  have s: "CHR '' '' \<in> set WHITESPACE \<and> CHR '' '' \<in> set WHITESPACE" by (simp add: WHITESPACE_def)
  from parse_args_splits_line[of ?l] l have "argv_strings ?l = Some (tokens (c_str ?l))" by blast
  then have a: "argv_strings ?l = Some [''showmappings'', ''0x1000'', ''0x2000'']"
    by (simp only: tokens_example)
  from parse_args_splits_line[of "[CHR '' '', CHR 0x09, CHR '' '']"] w
  have b: "argv_strings [CHR '' '', CHR 0x09, CHR '' ''] = Some []" by blast
  from parse_args_splits_line[of "[]"] s
  have "argv_strings (''a'' @ CHR '' '' # CHR '' '' # ''b'') = argv_strings (''a'' @ CHR '' '' # ''b'')"
    by blast
  then have c: "argv_strings ''a  b'' = argv_strings ''a b''" by simp
  from l a w b c show ?thesis by blast
qed

text \<open>A line of sixteen tokens: the loop gives up and yields no tokens at all.\<close>

theorem parse_args_sixteen_tokens:
  "length (tokens (c_str ''a b c d e f g h i j k l m n o p'')) = 16 \<and>
   argv_strings ''a b c d e f g h i j k l m n o p'' \<noteq>
     Some (tokens (c_str ''a b c d e f g h i j k l m n o p''))"
  by (simp add: argv_strings_cases tokens_sixteen MAXARGS_def)

text \<open>
  C8: for every line of sixteen or more tokens, \<^verbatim>\<open>runcmd\<close> reports once that there
  are too many arguments and returns 0, whatever a call of a handler would do: no
  handler is called.
\<close>

theorem runcmd_too_many_arguments:
  assumes "MAXARGS \<le> length (tokens (c_str buf))"
  shows "runcmd_with call buf tf =
           returns [Cprintf ''Too many arguments (max %d)\<newline>'' [I32 16]] 0 \<and>
         runcmd e buf tf =
           returns [Cprintf ''Too many arguments (max %d)\<newline>'' [I32 16]] 0"
proof -
  from assms have "parse_args [] buf [] = None" by (rule parse_args_line_too_many)
  then show ?thesis by (simp add: runcmd_def runcmd_with_def MAXARGS_def)
qed

theorem runcmd_too_many_arguments_witness:
  "MAXARGS \<le> length (tokens (c_str ''a b c d e f g h i j k l m n o p'')) \<and>
   runcmd_with (\<lambda>f argc argv tf. None) ''a b c d e f g h i j k l m n o p'' 0 =
     returns [Cprintf ''Too many arguments (max %d)\<newline>'' [I32 16]] 0 \<and>
   runcmd example_env ''a b c d e f g h i j k l m n o p'' 0 =
     returns [Cprintf ''Too many arguments (max %d)\<newline>'' [I32 16]] 0"
proof -
  have h: "MAXARGS \<le> length (tokens (c_str ''a b c d e f g h i j k l m n o p''))"
    unfolding tokens_sixteen by (simp add: MAXARGS_def)
  from runcmd_too_many_arguments[OF h, of "\<lambda>f argc argv tf. None" 0 example_env] h
  show ?thesis by simp
qed

section \<open>Return values\<close>

lemma lookup_command_c_str: "lookup_command cs p = lookup_command cs (c_str p)"
  by (induction cs) (simp_all add: c_str_c_str)


lemma lookup_commands:
  "lookup_command commands ''help'' = Some Mon_help"
  "lookup_command commands ''kerninfo'' = Some Mon_kerninfo"
  "lookup_command commands ''backtrace'' = Some Mon_backtrace"
  "lookup_command commands ''showmappings'' = Some Mon_showmappings"
  by (simp_all add: commands_def c_str_def NUL_def)

text \<open>A line of at most fifteen tokens: the pointers that \<^verbatim>\<open>runcmd\<close> works with.\<close>

lemma runcmd_with_line:
  assumes "tokens (c_str buf) = a # as" and "length as < MAXARGS - 1"
  shows "\<exists>argv. map c_str argv = a # as \<and>
           runcmd_with call buf tf =
             (case lookup_command commands a of
                Some f \<Rightarrow> call f (int (length argv)) argv tf
              | None \<Rightarrow> returns [Cprintf ''Unknown command '%s'\<newline>'' [Str a]] 0)"
proof -
  from assms have "length (tokens (c_str buf)) < MAXARGS" by (simp add: MAXARGS_def)
  from parse_args_line[OF this] obtain offsets where
    p: "parse_args [] buf [] = Some (blank buf, offsets)" and
    m: "map (\<lambda>i. c_str (drop i (blank buf))) offsets = tokens (c_str buf)" by blast
  define argv where "argv = map (\<lambda>i. drop i (blank buf)) offsets"
  have s: "map c_str argv = a # as" using m assms(1) by (simp add: argv_def comp_def)
  then have ne: "length argv \<noteq> 0" by auto
  from s have cs: "c_str (argv ! 0) = a" by (cases argv) auto
  have l: "lookup_command commands (argv ! 0) = lookup_command commands a"
    using lookup_command_c_str[of commands "argv ! 0"] cs by simp
  have "runcmd_with call buf tf =
          (let argv = argv
           in if length argv = 0 then returns [] 0
              else (case lookup_command commands (argv ! 0) of
                      Some f \<Rightarrow> call f (int (length argv)) argv tf
                    | None \<Rightarrow>
                        returns [Cprintf ''Unknown command '%s'\<newline>'' [Str (c_str (argv ! 0))]] 0))"
    unfolding runcmd_with_def p argv_def by simp
  then have r: "runcmd_with call buf tf =
             (case lookup_command commands a of
                Some f \<Rightarrow> call f (int (length argv)) argv tf
              | None \<Rightarrow> returns [Cprintf ''Unknown command '%s'\<newline>'' [Str a]] 0)"
    unfolding Let_def l cs using ne by simp
  show ?thesis by (rule exI[of _ argv]) (rule conjI[OF s r])
qed

lemma runcmd_handler_line:
  assumes "tokens (c_str buf) = a # as" and "length as < MAXARGS - 1"
    and "lookup_command commands a = Some f"
  shows "\<exists>argv. map c_str argv = a # as \<and>
           runcmd e buf tf = call_handler e f (int (length argv)) argv tf"
  using runcmd_with_line[OF assms(1,2), of "call_handler e" tf] assms(3)
  by (simp add: runcmd_def)

text \<open>The address parser on an argument.\<close>

lemma hexaddr2decaddr_total:
  "length (c_str (drop 2 p)) \<le> 8 \<Longrightarrow> \<exists>v. hexaddr2decaddr p = Inr v"
  using hex_loop_value[of "c_str (drop 2 p)" 0] by (simp add: hexaddr2decaddr_def)

lemma hexaddr2decaddr_arg:
  assumes "2 \<le> length (c_str p)"
  shows "hexaddr2decaddr p = hexaddr2decaddr (c_str p)"
proof -
  have "c_str (drop 2 p) = drop 2 (c_str p)" using assms by (rule c_str_drop)
  moreover have "c_str (drop 2 (c_str p)) = drop 2 (c_str (c_str p))"
    using assms by (intro c_str_drop) (simp add: c_str_c_str)
  ultimately show ?thesis by (simp add: hexaddr2decaddr_def c_str_c_str)
qed

lemma hexaddr2decaddr_token:
  assumes "c_str p = a" and "2 \<le> length a" and "length a \<le> 10"
  shows "hexaddr2decaddr p = hexaddr2decaddr a \<and> (\<exists>v. hexaddr2decaddr a = Inr v)"
proof -
  from assms have e: "hexaddr2decaddr p = hexaddr2decaddr a"
    using hexaddr2decaddr_arg[of p] by simp
  have "c_str (drop 2 p) = drop 2 a" using assms c_str_drop[of 2 p] by simp
  with assms have "length (c_str (drop 2 p)) \<le> 8" by simp
  from hexaddr2decaddr_total[OF this] e show ?thesis by auto
qed



lemma mon_showmappings_sweep:
  "hexaddr2decaddr p = Inr low \<Longrightarrow> hexaddr2decaddr q = Inr high \<Longrightarrow>
   mon_showmappings e 3 [cmd, p, q] tf =
     (case showmappings_loop e low high [] of None \<Rightarrow> None | Some out \<Rightarrow> returns out 0)"
  by (simp add: mon_showmappings_def bind_err_def argv_at_def)

lemma mon_showmappings_range:
  assumes "hexaddr2decaddr p = Inr low" and "hexaddr2decaddr q = Inr high"
    and "unat high + unat PGSIZE < 2 ^ 32"
  shows "\<exists>out. mon_showmappings e 3 [cmd, p, q] tf = returns out 0"
proof -
  from assms(3) have "unat high + 4096 < 2 ^ 32" by (simp add: unat_PGSIZE)
  from showmappings_loop_range[OF this, of e low "[]"]
  obtain out where "showmappings_loop e low high [] = Some out" by blast
  then show ?thesis by (auto simp add: mon_showmappings_sweep[OF assms(1,2)])
qed










lemma runcmd_showmappings_line:
  assumes "tokens (c_str buf) = ''showmappings'' # as" and "length as < MAXARGS - 1"
  shows "\<exists>argv. map c_str argv = ''showmappings'' # as \<and>
           runcmd e buf tf = mon_showmappings e (int (length argv)) argv tf"
  using runcmd_handler_line[OF assms lookup_commands(4), of e tf]
  by (auto simp: call_handler_def)



lemma runcmd_showmappings_range:
  assumes "tokens (c_str buf) = [''showmappings'', a, b]"
    and "2 \<le> length a" and "length a \<le> 10" and "2 \<le> length b" and "length b \<le> 10"
  shows "\<exists>low high. hexaddr2decaddr a = Inr low \<and> hexaddr2decaddr b = Inr high \<and>
           runcmd e buf tf =
             (case showmappings_loop e low high [] of
                None \<Rightarrow> None | Some out \<Rightarrow> returns out 0) \<and>
           (unat high + unat PGSIZE < 2 ^ 32 \<longrightarrow> (\<exists>out. runcmd e buf tf = returns out 0))"
proof -
  have "length [a, b] < MAXARGS - 1" by (simp add: MAXARGS_def)
  from runcmd_showmappings_line[OF assms(1) this, of e tf] obtain argv where
    a: "map c_str argv = [''showmappings'', a, b]"
    "runcmd e buf tf = mon_showmappings e (int (length argv)) argv tf" by (elim exE conjE)
  from a(1) obtain p0 p1 p2 where argv: "argv = [p0, p1, p2]" "c_str p1 = a" "c_str p2 = b"
    by auto
  from hexaddr2decaddr_token[OF argv(2) assms(2,3)] obtain low where
    l: "hexaddr2decaddr p1 = Inr low" "hexaddr2decaddr a = Inr low" by auto
  from hexaddr2decaddr_token[OF argv(3) assms(4,5)] obtain high where
    h: "hexaddr2decaddr p2 = Inr high" "hexaddr2decaddr b = Inr high" by auto
  from a(2) argv(1) have r: "runcmd e buf tf = mon_showmappings e 3 [p0, p1, p2] tf" by simp
  have s: "runcmd e buf tf =
             (case showmappings_loop e low high [] of
                None \<Rightarrow> None | Some out \<Rightarrow> returns out 0)"
    unfolding r by (rule mon_showmappings_sweep[OF l(1) h(1)])
  have "\<exists>out. runcmd e buf tf = returns out 0" if "unat high + unat PGSIZE < 2 ^ 32"
    unfolding r by (rule mon_showmappings_range[OF l(1) h(1) that])
  with l(2) h(2) s show ?thesis by blast
qed












text \<open>The range sweep returns exactly when some step leaves the range.\<close>

lemma showmappings_loop_returns:
  assumes "\<exists>k. \<not> low + of_nat k * PGSIZE \<le> high"
  shows "\<exists>y. showmappings_loop e low high out = Some y"
proof -
  define K where "K = (LEAST k. \<not> low + of_nat k * PGSIZE \<le> high)"
  have l: "\<not> low + of_nat K * PGSIZE \<le> high" unfolding K_def using assms by (rule LeastI_ex)
  have b: "\<forall>i<K. low + of_nat i * PGSIZE \<le> high" unfolding K_def using not_less_Least by blast
  from showmappings_loop_steps[OF b l, of e out] show ?thesis by blast
qed


lemma mon_showmappings_never_leaves:
  assumes "hexaddr2decaddr p = Inr low" and "hexaddr2decaddr q = Inr high"
    and "\<forall>k. low + of_nat k * PGSIZE \<le> high"
  shows "mon_showmappings e 3 [cmd, p, q] tf = None"
  using showmappings_loop_never_leaves[OF assms(3), of e "[]"]
  by (simp add: mon_showmappings_sweep[OF assms(1,2)])


lemma runcmd_showmappings_exits:
  assumes "tokens (c_str buf) = [''showmappings'', a, b]"
    and "2 \<le> length a" and "length a \<le> 10" and "2 \<le> length b" and "length b \<le> 10"
  shows "\<exists>low high. hexaddr2decaddr a = Inr low \<and> hexaddr2decaddr b = Inr high \<and>
           (unat high + unat PGSIZE < 2 ^ 32 \<longrightarrow> (\<exists>out. runcmd e buf tf = returns out 0)) \<and>
           ((\<exists>k. \<not> low + of_nat k * PGSIZE \<le> high) \<longrightarrow> (\<exists>out. runcmd e buf tf = returns out 0)) \<and>
           ((\<forall>k. low + of_nat k * PGSIZE \<le> high) \<longrightarrow> runcmd e buf tf = None)"
proof -
  from runcmd_showmappings_range[OF assms, of e tf] obtain low high where
    l: "hexaddr2decaddr a = Inr low" and h: "hexaddr2decaddr b = Inr high" and
    r: "runcmd e buf tf =
          (case showmappings_loop e low high [] of None \<Rightarrow> None | Some out \<Rightarrow> returns out 0)" and
    s: "unat high + unat PGSIZE < 2 ^ 32 \<longrightarrow> (\<exists>out. runcmd e buf tf = returns out 0)"
    by (elim exE conjE)
  have x: "\<exists>out. runcmd e buf tf = returns out 0" if "\<exists>k. \<not> low + of_nat k * PGSIZE \<le> high"
    using showmappings_loop_returns[OF that, of e "[]"] r by auto
  have y: "runcmd e buf tf = None" if "\<forall>k. low + of_nat k * PGSIZE \<le> high"
    using showmappings_loop_never_leaves[OF that, of e "[]"] r by simp
  from l h s x y show ?thesis by blast
qed





lemma parse_args_earlier_line:
  "parse_args [] (''showmappings 1'' @ [NUL] @ ''f0100000'') [] =
     Some (''showmappings'' @ [NUL] @ ''1'' @ [NUL] @ ''f0100000'', [0, 13])"
  by (simp add: parse_args.simps at_nul_def WHITESPACE_def NUL_def MAXARGS_def)

lemma runcmd_earlier_line:
  "runcmd e (''showmappings 1'' @ [NUL] @ ''f0100000'') tf =
     returns (fst (showmappings e 0xf0100000)) 0"
  unfolding runcmd_def runcmd_with_def parse_args_earlier_line
  by (simp add: commands_def c_str_def NUL_def call_handler_def mon_showmappings_def
      bind_err_def argv_at_def hexaddr2decaddr_def char2int_def)



section \<open>The range sweep from the command line\<close>

text \<open>
  C3: in range mode with both ends at \<^verbatim>\<open>0xfffff000\<close>, where a range with equal ends
  is to be translated once, the sweep never ends: \<^verbatim>\<open>low += PGSIZE\<close> wraps to 0,
  which is below \<^verbatim>\<open>high\<close> again. So neither \<^verbatim>\<open>mon_showmappings\<close> nor
  \<^verbatim>\<open>runcmd\<close> on that line returns.
\<close>

theorem mon_showmappings_top_page:
  "hexaddr2decaddr ''0xfffff000'' = Inr 0xFFFFF000 \<and>
   (0xFFFFF000 :: 32 word) + PGSIZE = 0 \<and>
   mon_showmappings e 3 [''showmappings'', ''0xfffff000'', ''0xfffff000''] tf = None \<and>
   runcmd e ''showmappings 0xfffff000 0xfffff000'' tf = None"
proof -
  have n: "\<forall>k. (0xFFFFF000 :: 32 word) + of_nat k * PGSIZE \<le> 0xFFFFF000"
    by (simp add: top_page_never_leaves)
  have m: "mon_showmappings e 3 [''showmappings'', ''0xfffff000'', ''0xfffff000''] tf = None"
    by (rule mon_showmappings_never_leaves[OF parse_fffff000 parse_fffff000 n])
  have t: "tokens (c_str ''showmappings 0xfffff000 0xfffff000'') =
          [''showmappings'', ''0xfffff000'', ''0xfffff000'']"
    by (simp add: tokens_def WHITESPACE_def c_str_def NUL_def)
  from runcmd_showmappings_exits[OF t, of e tf] n
  have r: "runcmd e ''showmappings 0xfffff000 0xfffff000'' tf = None"
    by (auto simp: parse_fffff000)
  show ?thesis using m r by (simp add: parse_fffff000 PGSIZE_def)
qed

end
